theory Spec2Isabelle
  imports Main "HOL-Library.Word"
begin

unbundle bit_operations_syntax

section \<open>The cache simulator of \<^verbatim>\<open>cache_simulator.c\<close>\<close>

text \<open>
  The C program keeps one \<^verbatim>\<open>cache_t\<close> on the heap: an array of sets, each an array of
  lines.  The embedding keeps the same three structs as records and the two arrays as lists.
  A pointer to a set is the index of the set in \<^verbatim>\<open>set_arry\<close>; a pointer to a line is the
  index of its set together with the index of the line in \<^verbatim>\<open>lines\<close>.

  C \<^verbatim>\<open>int\<close> and \<^verbatim>\<open>unsigned int\<close> are 32-bit words, \<^verbatim>\<open>unsigned long long\<close> is a 64-bit
  word.  An \<^verbatim>\<open>int\<close> is read with \<open>sint\<close>, an unsigned value with \<open>unat\<close>; the order \<open><\<close> on
  words is the unsigned one.  Everything that C leaves undefined is a value of \<open>error\<close>:
  reading or writing outside an array, overflow of a signed \<^verbatim>\<open>int\<close>, a shift by a negative
  count or by 32 and more, a left shift of a negative value or one whose result does not fit,
  and a conversion from \<^verbatim>\<open>double\<close> to \<^verbatim>\<open>int\<close> of a value that \<^verbatim>\<open>int\<close> cannot hold.
  Allocation is assumed to succeed for every request of non-negative size.  What the program
  prints in verbose mode is not part of the model.
\<close>

type_synonym int32 = "32 word"
type_synonym uint32 = "32 word"
type_synonym uint64 = "64 word"

datatype error = Out_Of_Bounds | Signed_Overflow | Undefined_Shift | Undefined_Conversion

fun bind_e :: "error + 'a \<Rightarrow> ('a \<Rightarrow> error + 'b) \<Rightarrow> error + 'b" where
  "bind_e (Inl e) f = Inl e"
| "bind_e (Inr x) f = f x"

subsection \<open>The operations of C on \<^verbatim>\<open>int\<close>\<close>

definition INT_MAX :: int32 where
  "INT_MAX = 0x7FFFFFFF"

text \<open>\<^verbatim>\<open>x++\<close> on an \<^verbatim>\<open>int\<close>.\<close>

definition incr :: "int32 \<Rightarrow> error + int32" where
  "incr x = (if x = INT_MAX then Inl Signed_Overflow else Inr (x + 1))"

text \<open>\<^verbatim>\<open>a + b\<close> on two \<^verbatim>\<open>int\<close>s.\<close>

definition add_int :: "int32 \<Rightarrow> int32 \<Rightarrow> error + int32" where
  "add_int a b =
     (if sint a + sint b < - (2 ^ 31) \<or> 2 ^ 31 \<le> sint a + sint b then Inl Signed_Overflow
      else Inr (a + b))"

text \<open>\<^verbatim>\<open>a << n\<close> on two \<^verbatim>\<open>int\<close>s.\<close>

definition shl :: "int32 \<Rightarrow> int32 \<Rightarrow> error + int32" where
  "shl a n =
     (if sint n < 0 \<or> 32 \<le> sint n then Inl Undefined_Shift
      else if sint a < 0 \<or> 2 ^ 31 \<le> sint a * 2 ^ nat (sint n) then Inl Undefined_Shift
      else Inr (push_bit (nat (sint n)) a))"

text \<open>\<^verbatim>\<open>a >> n\<close> on two \<^verbatim>\<open>int\<close>s; the shift of a negative value keeps the sign, as the
  compilers for the program's platform define it.\<close>

definition shr :: "int32 \<Rightarrow> int32 \<Rightarrow> error + int32" where
  "shr a n =
     (if sint n < 0 \<or> 32 \<le> sint n then Inl Undefined_Shift
      else Inr (signed_drop_bit (nat (sint n)) a))"

text \<open>
  The expression \<^verbatim>\<open>pow(2, bits) - 1\<close> assigned to an \<^verbatim>\<open>int\<close>.  The power and the difference
  are computed in \<^verbatim>\<open>double\<close> (IEEE 754 binary64, round to nearest even) and the conversion
  truncates towards zero:
  \<^item> for \<open>0 \<le> bits \<le> 31\<close> the difference is the integer \<open>2 ^ bits - 1\<close>, which fits;
  \<^item> for \<open>32 \<le> bits\<close> the difference is \<open>2 ^ 32 - 1\<close> at least, and the conversion undefined;
  \<^item> for \<open>- 53 \<le> bits < 0\<close> the difference \<open>2 ^ bits - 1\<close> is a \<^verbatim>\<open>double\<close> strictly
    between \<open>- 1\<close> and \<open>0\<close>, converted to \<open>0\<close>;
  \<^item> for \<open>bits < - 53\<close> the difference is rounded to \<open>- 1\<close>.
\<close>

definition pow2_minus_1 :: "int32 \<Rightarrow> error + int32" where
  "pow2_minus_1 bits =
     (if 32 \<le> sint bits then Inl Undefined_Conversion
      else if 0 \<le> sint bits then Inr (2 ^ nat (sint bits) - 1)
      else if - 53 \<le> sint bits then Inr 0
      else Inr (- 1))"

subsection \<open>The data\<close>

text \<open>\<open>data\<close> is the pointer to the block's bytes: the program only ever stores \<^verbatim>\<open>NULL\<close>,
  which is \<open>None\<close>.\<close>

record cache_line_t =
  valid :: int32
  dirty :: int32
  tag :: uint64
  age :: uint32
  data :: "nat option"

record cache_set_t =
  lines :: "cache_line_t list"

record cache_t =
  set_bits :: int32
  associativity :: int32
  block_bits :: int32
  num_sets :: int32
  num_blocks :: int32
  miss_count :: int32
  hit_count :: int32
  evict_count :: int32
  flag_v_set :: int32
  instr_count :: int32
  set_arry :: "cache_set_t list"

text \<open>Reading through a pointer to a line, and writing a line back through it.  A read
  outside the arrays is an error; the program writes only to a line it has read.\<close>

definition read_line :: "cache_t \<Rightarrow> nat \<Rightarrow> nat \<Rightarrow> error + cache_line_t" where
  "read_line cache set_n line_n =
     (if set_n < length (set_arry cache) \<and> line_n < length (lines (set_arry cache ! set_n))
      then Inr (lines (set_arry cache ! set_n) ! line_n)
      else Inl Out_Of_Bounds)"

definition write_line :: "cache_t \<Rightarrow> nat \<Rightarrow> nat \<Rightarrow> cache_line_t \<Rightarrow> cache_t" where
  "write_line cache set_n line_n l =
     cache\<lparr>set_arry := (set_arry cache)
        [set_n := (set_arry cache ! set_n)\<lparr>lines := (lines (set_arry cache ! set_n))[line_n := l]\<rparr>]\<rparr>"

subsection \<open>Construction\<close>

text \<open>\<^verbatim>\<open>make_cache_line\<close> overwrites all five fields of the line it is given, so the line it
  leaves does not depend on what the fresh memory held.\<close>

definition make_cache_line :: cache_line_t where
  "make_cache_line = \<lparr>valid = 0, dirty = 0, tag = 0, age = 0, data = None\<rparr>"

text \<open>\<^verbatim>\<open>make_cache_set\<close> allocates \<open>associativity\<close> lines and initialises the lines
  \<open>0 \<le> line_n < associativity\<close>.  For a negative \<open>associativity\<close> the requested size is
  beyond every address space, \<^verbatim>\<open>malloc\<close> returns \<^verbatim>\<open>NULL\<close>, and the loop does not run: the set
  has no line that may be accessed.\<close>

definition make_cache_set :: "int32 \<Rightarrow> cache_set_t" where
  "make_cache_set assoc = \<lparr>lines = map (\<lambda>line_n. make_cache_line) [0 ..< nat (sint assoc)]\<rparr>"

text \<open>\<^verbatim>\<open>make_cache\<close> allocates \<open>num_sets + 1\<close> sets and initialises the sets
  \<open>0 \<le> set_n \<le> num_sets\<close>.\<close>

definition make_cache :: "int32 \<Rightarrow> int32 \<Rightarrow> int32 \<Rightarrow> int32 \<Rightarrow> error + cache_t" where
  "make_cache s_bits assoc b_bits v_set =
     bind_e (pow2_minus_1 s_bits) (\<lambda>n_sets.
     bind_e (pow2_minus_1 b_bits) (\<lambda>n_blocks.
     bind_e (add_int n_sets 1) (\<lambda>size.
       Inr \<lparr>set_bits = s_bits, associativity = assoc, block_bits = b_bits,
            num_sets = n_sets, num_blocks = n_blocks,
            miss_count = 0, hit_count = 0, evict_count = 0,
            flag_v_set = v_set, instr_count = 0,
            set_arry = map (\<lambda>set_n. make_cache_set assoc) [0 .. sint n_sets]\<rparr>)))"

subsection \<open>Address decomposition\<close>

definition set_for :: "int32 \<Rightarrow> cache_t \<Rightarrow> error + int32" where
  "set_for address cache =
     bind_e (shl (num_sets cache) (block_bits cache)) (\<lambda>set_mask.
     shr (set_mask AND address) (block_bits cache))"

definition tag_for :: "int32 \<Rightarrow> cache_t \<Rightarrow> error + int32" where
  "tag_for address cache =
     bind_e (shl (num_sets cache) (block_bits cache)) (\<lambda>shifted.
     let sets_and_blocks = num_blocks cache OR shifted;
         tag_mask = NOT sets_and_blocks
     in bind_e (add_int (set_bits cache) (block_bits cache)) (\<lambda>n.
        shr (tag_mask AND address) n))"

subsection \<open>Hit, miss, eviction\<close>

text \<open>The loop of \<^verbatim>\<open>check_for_hit\<close>, from line \<open>line_n\<close> on.  The tag of a line is an
  \<^verbatim>\<open>unsigned long long\<close>, so the comparison converts \<open>my_tag\<close> to that type, keeping its
  sign (\<open>scast\<close>).  The result is the cache and the returned \<^verbatim>\<open>int\<close>.\<close>

function check_for_hit_from :: "cache_t \<Rightarrow> nat \<Rightarrow> int32 \<Rightarrow> nat \<Rightarrow> error + (cache_t \<times> int32)" where
  "check_for_hit_from cache correct_set my_tag line_n =
     (if int line_n < sint (associativity cache) then
        bind_e (read_line cache correct_set line_n) (\<lambda>line_of_int.
          if tag line_of_int = scast my_tag \<and> valid line_of_int \<noteq> 0 then
            bind_e (incr (hit_count cache)) (\<lambda>h.
              Inr ((write_line cache correct_set line_n
                      (line_of_int\<lparr>age := instr_count cache\<rparr>))\<lparr>hit_count := h\<rparr>, 1))
          else check_for_hit_from cache correct_set my_tag (Suc line_n))
      else Inr (cache, 0))"
  by pat_completeness auto
termination
  by (relation "measure (\<lambda>(cache, correct_set, my_tag, line_n).
        nat (sint (associativity cache)) - line_n)") auto

definition check_for_hit :: "cache_t \<Rightarrow> nat \<Rightarrow> int32 \<Rightarrow> error + (cache_t \<times> int32)" where
  "check_for_hit cache correct_set my_tag = check_for_hit_from cache correct_set my_tag 0"

text \<open>\<open>oldest_line\<close> points to a line: the index of the set and the index of the line.\<close>

definition evict :: "cache_t \<Rightarrow> nat \<times> nat \<Rightarrow> int32 \<Rightarrow> error + cache_t" where
  "evict cache oldest_line my_tag =
     bind_e (incr (evict_count cache)) (\<lambda>e.
     bind_e (read_line cache (fst oldest_line) (snd oldest_line)) (\<lambda>oldest.
       Inr (write_line (cache\<lparr>evict_count := e\<rparr>) (fst oldest_line) (snd oldest_line)
              (oldest\<lparr>tag := scast my_tag, age := instr_count cache\<rparr>))))"

text \<open>The loop of \<^verbatim>\<open>miss\<close>, from line \<open>line_n\<close> on, with \<open>oldest_line\<close> the index of the
  oldest line so far; the call of \<^verbatim>\<open>evict\<close> that follows the loop is its last branch.\<close>

function miss_from :: "cache_t \<Rightarrow> nat \<Rightarrow> int32 \<Rightarrow> nat \<Rightarrow> nat \<Rightarrow> error + cache_t" where
  "miss_from cache correct_set my_tag oldest_line line_n =
     (if int line_n < sint (associativity cache) then
        bind_e (read_line cache correct_set line_n) (\<lambda>line_of_int.
        bind_e (read_line cache correct_set oldest_line) (\<lambda>oldest.
          let oldest_line' = (if age line_of_int < age oldest then line_n else oldest_line)
          in if valid line_of_int = 0 then
               Inr (write_line cache correct_set line_n
                      (line_of_int\<lparr>tag := scast my_tag, valid := 1, age := instr_count cache\<rparr>))
             else miss_from cache correct_set my_tag oldest_line' (Suc line_n)))
      else evict cache (correct_set, oldest_line) my_tag)"
  by pat_completeness auto
termination
  by (relation "measure (\<lambda>(cache, correct_set, my_tag, oldest_line, line_n).
        nat (sint (associativity cache)) - line_n)") auto

definition miss :: "cache_t \<Rightarrow> nat \<Rightarrow> int32 \<Rightarrow> error + cache_t" where
  "miss cache correct_set my_tag =
     bind_e (incr (miss_count cache)) (\<lambda>m.
       miss_from (cache\<lparr>miss_count := m\<rparr>) correct_set my_tag 0 0)"

text \<open>\<^verbatim>\<open>lookup\<close> takes the address of the set \<open>my_set\<close> in \<^verbatim>\<open>set_arry\<close>, which has to lie
  in the array.\<close>

definition lookup :: "int32 \<Rightarrow> cache_t \<Rightarrow> error + cache_t" where
  "lookup address cache =
     bind_e (incr (instr_count cache)) (\<lambda>n.
     bind_e (tag_for address (cache\<lparr>instr_count := n\<rparr>)) (\<lambda>my_tag.
     bind_e (set_for address (cache\<lparr>instr_count := n\<rparr>)) (\<lambda>my_set.
       if sint my_set < 0 \<or> int (length (set_arry cache)) \<le> sint my_set then Inl Out_Of_Bounds
       else
         bind_e (check_for_hit (cache\<lparr>instr_count := n\<rparr>) (nat (sint my_set)) my_tag)
           (\<lambda>(cache', is_hit).
              if is_hit = 0 then miss cache' (nat (sint my_set)) my_tag else Inr cache'))))"

subsection \<open>The trace driver\<close>

definition call_lookup :: "int32 \<Rightarrow> char \<Rightarrow> cache_t \<Rightarrow> error + cache_t" where
  "call_lookup int_address operation cache =
     bind_e (lookup int_address cache) (\<lambda>cache'.
       if operation = CHR ''M'' then lookup int_address cache' else Inr cache')"

text \<open>A line of the trace file, as \<^verbatim>\<open>read_file\<close> sees it: a line that starts with a space
  carries an operation character and a hexadecimal address; every other line is skipped.
  Reading the text of the file is outside the model.\<close>

datatype trace_line = Access char int32 | Skipped

fun read_file :: "cache_t \<Rightarrow> trace_line list \<Rightarrow> error + cache_t" where
  "read_file cache [] = Inr cache"
| "read_file cache (Skipped # rest) = read_file cache rest"
| "read_file cache (Access operation int_address # rest) =
     bind_e (call_lookup int_address operation cache) (\<lambda>cache'. read_file cache' rest)"

text \<open>\<^verbatim>\<open>main\<close>, from the parsed options on; the result is what \<^verbatim>\<open>printSummary\<close> receives.\<close>

definition main :: "int32 \<Rightarrow> int32 \<Rightarrow> int32 \<Rightarrow> int32 \<Rightarrow> trace_line list \<Rightarrow> error + (int32 \<times> int32 \<times> int32)" where
  "main flag_s_value flag_E_value flag_b_value flag_v_value trace =
     bind_e (make_cache flag_s_value flag_E_value flag_b_value flag_v_value) (\<lambda>mycache.
     bind_e (read_file mycache trace) (\<lambda>mycache'.
       Inr (hit_count mycache', miss_count mycache', evict_count mycache')))"

subsection \<open>Concrete caches\<close>

text \<open>A cache with four sets of one line and blocks of sixteen bytes.\<close>

definition example_cache :: cache_t where
  "example_cache =
     \<lparr>set_bits = 2, associativity = 1, block_bits = 4, num_sets = 3, num_blocks = 15,
      miss_count = 0, hit_count = 0, evict_count = 0, flag_v_set = 0, instr_count = 0,
      set_arry = map (\<lambda>set_n. make_cache_set 1) [0 .. 3]\<rparr>"

text \<open>The caches of geometry \<open>(set_bits, associativity, block_bits) = (0, 2, 0)\<close>: one set of
  two lines.  \<open>counts\<close> is \<open>(hit_count, miss_count, evict_count)\<close>, \<open>n\<close> is \<open>instr_count\<close>, and
  a line is given as \<open>(valid, tag, age)\<close>.\<close>

definition small_cache :: "int32 \<times> int32 \<times> int32 \<Rightarrow> int32 \<Rightarrow> (int32 \<times> uint64 \<times> uint32) list \<Rightarrow> cache_t" where
  "small_cache counts n ls =
     \<lparr>set_bits = 0, associativity = 2, block_bits = 0, num_sets = 0, num_blocks = 0,
      miss_count = fst (snd counts), hit_count = fst counts, evict_count = snd (snd counts),
      flag_v_set = 0, instr_count = n,
      set_arry = [\<lparr>lines = map (\<lambda>(v, t, a). \<lparr>valid = v, dirty = 0, tag = t, age = a, data = None\<rparr>) ls\<rparr>]\<rparr>"

subsection \<open>Predicates on the lines of a set\<close>

text \<open>The condition of \<^verbatim>\<open>check_for_hit\<close> on a line: its tag equals \<open>my_tag\<close> and it is valid.\<close>

definition hit_line :: "int32 \<Rightarrow> cache_line_t \<Rightarrow> bool" where
  "hit_line my_tag l \<longleftrightarrow> tag l = scast my_tag \<and> valid l \<noteq> 0"

text \<open>The equations of the two loops are unfolded by hand.\<close>

declare check_for_hit_from.simps [simp del] miss_from.simps [simp del]

text \<open>From line \<open>n\<close> on, the loop of \<^verbatim>\<open>check_for_hit\<close> reads every line of set \<open>k\<close> and none
  is a hit; respectively, line \<open>j\<close> is the first hit from \<open>n\<close> on, and \<open>l\<close> is its content.\<close>

definition no_hit_from :: "cache_t \<Rightarrow> nat \<Rightarrow> int32 \<Rightarrow> nat \<Rightarrow> bool" where
  "no_hit_from c k t n \<longleftrightarrow>
     (\<forall>i. n \<le> i \<and> int i < sint (associativity c) \<longrightarrow>
        (\<exists>l. read_line c k i = Inr l \<and> \<not> hit_line t l))"

definition first_hit_from :: "cache_t \<Rightarrow> nat \<Rightarrow> int32 \<Rightarrow> nat \<Rightarrow> nat \<Rightarrow> cache_line_t \<Rightarrow> bool" where
  "first_hit_from c k t n j l \<longleftrightarrow>
     n \<le> j \<and> int j < sint (associativity c) \<and> read_line c k j = Inr l \<and> hit_line t l \<and>
     (\<forall>i. n \<le> i \<and> i < j \<longrightarrow> (\<exists>l'. read_line c k i = Inr l' \<and> \<not> hit_line t l'))"

text \<open>The same for the loop of \<^verbatim>\<open>miss\<close>: every line from \<open>n\<close> on is valid; line \<open>j\<close> is the first
  invalid one; and \<open>v\<close> is the line the scan for the oldest ends with, when it starts with
  \<open>oldest\<close> and compares it with the lines from \<open>n\<close> on: a line of least age that is replaced
  only by a strictly younger one.\<close>

definition age_at :: "cache_t \<Rightarrow> nat \<Rightarrow> nat \<Rightarrow> uint32" where
  "age_at c k i = age (lines (set_arry c ! k) ! i)"

definition all_valid_from :: "cache_t \<Rightarrow> nat \<Rightarrow> nat \<Rightarrow> bool" where
  "all_valid_from c k n \<longleftrightarrow>
     (\<forall>i. n \<le> i \<and> int i < sint (associativity c) \<longrightarrow>
        (\<exists>l. read_line c k i = Inr l \<and> valid l \<noteq> 0))"

definition first_invalid_from :: "cache_t \<Rightarrow> nat \<Rightarrow> nat \<Rightarrow> nat \<Rightarrow> cache_line_t \<Rightarrow> bool" where
  "first_invalid_from c k n j l \<longleftrightarrow>
     n \<le> j \<and> int j < sint (associativity c) \<and> read_line c k j = Inr l \<and> valid l = 0 \<and>
     (\<forall>i. n \<le> i \<and> i < j \<longrightarrow> (\<exists>l'. read_line c k i = Inr l' \<and> valid l' \<noteq> 0))"

definition oldest_from :: "cache_t \<Rightarrow> nat \<Rightarrow> nat \<Rightarrow> nat \<Rightarrow> nat \<Rightarrow> bool" where
  "oldest_from c k oldest n v \<longleftrightarrow>
     (v = oldest \<or> (n \<le> v \<and> int v < sint (associativity c))) \<and>
     age_at c k v \<le> age_at c k oldest \<and>
     (\<forall>i. n \<le> i \<and> int i < sint (associativity c) \<longrightarrow> age_at c k v \<le> age_at c k i) \<and>
     (v \<noteq> oldest \<longrightarrow>
        age_at c k v < age_at c k oldest \<and> (\<forall>i. n \<le> i \<and> i < v \<longrightarrow> age_at c k v < age_at c k i))"

text \<open>The number of lines of each set, and what a call of \<^verbatim>\<open>lookup\<close> never changes: the
  geometry, the verbose flag and the sizes of the arrays.\<close>

definition shape :: "cache_t \<Rightarrow> nat list" where
  "shape c = map (\<lambda>s. length (lines s)) (set_arry c)"

definition same_geometry :: "cache_t \<Rightarrow> cache_t \<Rightarrow> bool" where
  "same_geometry c c' \<longleftrightarrow>
     set_bits c' = set_bits c \<and> associativity c' = associativity c \<and>
     block_bits c' = block_bits c \<and> num_sets c' = num_sets c \<and> num_blocks c' = num_blocks c \<and>
     flag_v_set c' = flag_v_set c \<and> shape c' = shape c"

subsection \<open>Predicates on a cache and on a trace\<close>

text \<open>Every line of every set is valid.\<close>

definition full :: "cache_t \<Rightarrow> bool" where
  "full c \<longleftrightarrow> (\<forall>k j l. read_line c k j = Inr l \<longrightarrow> valid l \<noteq> 0)"

text \<open>The number of calls of \<^verbatim>\<open>lookup\<close> that \<^verbatim>\<open>read_file\<close> makes for a trace: two for an
  access with operation \<open>M\<close>, one for every other access.\<close>

fun sub_references :: "trace_line list \<Rightarrow> nat" where
  "sub_references [] = 0"
| "sub_references (Skipped # rest) = sub_references rest"
| "sub_references (Access operation int_address # rest) =
     (if operation = CHR ''M'' then 2 else 1) + sub_references rest"

text \<open>The caches on which \<^verbatim>\<open>lookup\<close> stays inside the arrays: the geometry is one that
  \<^verbatim>\<open>make_cache\<close> builds from \<open>0 \<le> set_bits\<close>, \<open>0 \<le> block_bits\<close>, \<open>set_bits + block_bits \<le> 31\<close>
  and an associativity of at least one.\<close>

definition well_formed :: "cache_t \<Rightarrow> bool" where
  "well_formed c \<longleftrightarrow>
     0 \<le> sint (set_bits c) \<and> 0 \<le> sint (block_bits c) \<and>
     sint (set_bits c) + sint (block_bits c) \<le> 31 \<and>
     num_sets c = 2 ^ nat (sint (set_bits c)) - 1 \<and>
     1 \<le> sint (associativity c) \<and>
     shape c = replicate (2 ^ nat (sint (set_bits c))) (nat (sint (associativity c)))"

text \<open>The counters as every run from a new cache keeps them.\<close>

definition counters_ok :: "cache_t \<Rightarrow> bool" where
  "counters_ok c \<longleftrightarrow>
     0 \<le> sint (hit_count c) \<and> 0 \<le> sint (evict_count c) \<and>
     sint (evict_count c) \<le> sint (miss_count c) \<and>
     sint (hit_count c) + sint (miss_count c) = sint (instr_count c)"

section \<open>Properties\<close>

subsection \<open>Results and arithmetic\<close>

lemma bind_e_Inr_iff: "bind_e m f = Inr y \<longleftrightarrow> (\<exists>x. m = Inr x \<and> f x = Inr y)"
  by (cases m) auto

lemma sint_add_no_overflow:
  fixes x y :: int32
  assumes "- (2 ^ 31) \<le> sint x + sint y" "sint x + sint y < 2 ^ 31"
  shows "sint (x + y) = sint x + sint y"
  using assms by (simp add: sint_word_add signed_take_bit_int_eq_self)

lemma sint_mask32: "s \<le> 31 \<Longrightarrow> sint (mask s :: int32) = 2 ^ s - 1"
proof -
  assume s: "s \<le> 31"
  have le: "(2::int) ^ s \<le> 2 ^ 31"
    using s by (intro power_increasing) simp_all
  have "uint (mask s :: int32) = 2 ^ s - 1"
    using s by (simp add: uint_mask_eq min_def mask_eq_exp_minus_1 [where ?'a = int])
  moreover have "(0::int) < 2 ^ s" by simp
  then have "signed_take_bit 31 ((2::int) ^ s - 1) = 2 ^ s - 1"
    using le by (intro signed_take_bit_int_eq_self) linarith+
  ultimately show ?thesis
    by (simp add: sint_uint)
qed

lemma sint_pow2_minus_1: "s \<le> 31 \<Longrightarrow> sint (2 ^ s - 1 :: int32) = 2 ^ s - 1"
  using sint_mask32 [of s] by (simp add: mask_eq_exp_minus_1)

lemma sint_and_mask:
  fixes x :: int32
  assumes "s \<le> 31"
  shows "0 \<le> sint (x AND mask s)" and "sint (x AND mask s) < 2 ^ s"
proof -
  have lt: "uint (x AND mask s) < 2 ^ s"
    by (rule and_mask_lt_2p)
  have "(2::int) ^ s \<le> 2 ^ 31"
    using assms by (intro power_increasing) simp_all
  with lt have "uint (x AND mask s) < 2 ^ 31" by linarith
  moreover have "0 \<le> uint (x AND mask s)" by simp
  ultimately have "signed_take_bit 31 (uint (x AND mask s)) = uint (x AND mask s)"
    by (intro signed_take_bit_int_eq_self) linarith+
  then have eq: "sint (x AND mask s) = uint (x AND mask s)"
    by (simp add: sint_uint)
  show "0 \<le> sint (x AND mask s)" "sint (x AND mask s) < 2 ^ s"
    using lt by (simp_all add: eq)
qed

lemma shl_mask:
  assumes "sint bw = int b" "s + b \<le> 31"
  shows "shl (mask s) bw = Inr (push_bit b (mask s))"
proof -
  have "(2::int) ^ (s + b) \<le> 2 ^ 31"
    using assms(2) by (intro power_increasing) simp_all
  then have "(2::int) ^ s * 2 ^ b \<le> 2 ^ 31"
    by (simp only: power_add)
  moreover have "(0::int) < 2 ^ b" by simp
  moreover have "(2 ^ s - 1) * 2 ^ b = (2::int) ^ s * 2 ^ b - 2 ^ b"
    by (simp add: algebra_simps)
  ultimately have "(2 ^ s - 1) * 2 ^ b < (2::int) ^ 31"
    by linarith
  moreover have "\<not> (2::int) ^ s < 1"
    by (simp add: not_less)
  ultimately show ?thesis
    using assms by (simp add: shl_def sint_mask32)
qed

lemma add_int_small:
  assumes "sint x = int s" "sint y = int b" "s + b \<le> 31"
  shows "add_int x y = Inr (x + y)" and "sint (x + y) = int (s + b)"
  using assms
  by (simp_all add: add_int_def sint_add_no_overflow)

lemma incr_Inr_iff: "incr x = Inr y \<longleftrightarrow> x \<noteq> INT_MAX \<and> y = x + 1"
  by (auto simp: incr_def)

lemma sint_incr: "x \<noteq> INT_MAX \<Longrightarrow> sint (x + 1) = sint x + 1"
proof -
  assume "x \<noteq> INT_MAX"
  then have "sint x \<noteq> sint INT_MAX" using signed_word_eqI [of x INT_MAX] by blast
  moreover have "sint x < 2 ^ 31" using sint_lt [of x] by simp
  moreover have "- (2 ^ 31) \<le> sint x" using sint_ge [of x] by simp
  ultimately show ?thesis
    using sint_add_no_overflow [of x 1] by (simp add: INT_MAX_def)
qed

lemma sint_INT_MAX: "sint INT_MAX = 2 ^ 31 - 1"
  by (simp add: INT_MAX_def)

lemma not_INT_MAX:
  assumes "sint x < 2 ^ 31 - 1"
  shows "x \<noteq> INT_MAX"
  using assms sint_INT_MAX by auto

subsection \<open>Address decomposition\<close>

lemma set_bits_eq:
  fixes a :: int32
  assumes "s + b \<le> 31"
  shows "signed_drop_bit b (push_bit b (mask s) AND a) = signed_drop_bit b a AND mask s"
  by (rule bit_word_eqI) (use assms in \<open>auto simp add: bit_simps\<close>)

lemma tag_bits_eq:
  fixes a :: int32
  assumes "s + b \<le> 31"
  shows "signed_drop_bit (s + b) (NOT (mask b OR push_bit b (mask s)) AND a) = signed_drop_bit (s + b) a"
  by (rule bit_word_eqI) (use assms in \<open>auto simp add: bit_simps\<close>)

lemma set_for_eq:
  assumes "sint (set_bits cache) = int s" and "sint (block_bits cache) = int b"
    and "s + b \<le> 31" and "num_sets cache = 2 ^ s - 1"
  shows "set_for address cache = Inr (signed_drop_bit b address AND (2 ^ s - 1))"
proof -
  have ns: "num_sets cache = mask s"
    using assms(4) by (simp add: mask_eq_exp_minus_1)
  have shl: "shl (num_sets cache) (block_bits cache) = Inr (push_bit b (mask s))"
    using shl_mask [OF assms(2,3)] by (simp add: ns)
  have b32: "\<not> sint (block_bits cache) < 0" "\<not> 32 \<le> sint (block_bits cache)"
    using assms(2,3) by simp_all
  have "set_for address cache = Inr (signed_drop_bit b (push_bit b (mask s) AND address))"
    using b32 by (simp add: set_for_def shl shr_def assms(2))
  also have "signed_drop_bit b (push_bit b (mask s) AND address) = signed_drop_bit b address AND mask s"
    by (rule set_bits_eq [OF assms(3)])
  also have "(mask s :: int32) = 2 ^ s - 1"
    by (rule mask_eq_exp_minus_1)
  finally show ?thesis .
qed

lemma tag_for_eq:
  assumes "sint (set_bits cache) = int s" and "sint (block_bits cache) = int b"
    and "s + b \<le> 31" and "num_sets cache = 2 ^ s - 1"
  shows "tag_for address cache =
           Inr (signed_drop_bit (s + b) (NOT (num_blocks cache OR push_bit b (mask s)) AND address))"
proof -
  have ns: "num_sets cache = mask s"
    using assms(4) by (simp add: mask_eq_exp_minus_1)
  have shl: "shl (num_sets cache) (block_bits cache) = Inr (push_bit b (mask s))"
    using shl_mask [OF assms(2,3)] by (simp add: ns)
  have add: "add_int (set_bits cache) (block_bits cache) = Inr (set_bits cache + block_bits cache)"
    and sum: "sint (set_bits cache + block_bits cache) = int (s + b)"
    using add_int_small [OF assms(1,2,3)] by simp_all
  show ?thesis
    using assms(3) by (simp add: tag_for_def shl add shr_def sum del: of_nat_add)
qed

lemma shl_defined:
  assumes "shl (2 ^ s - 1) bw = Inr y" and "sint bw = int b"
  shows "s + b \<le> 31"
proof -
  from assms have b: "b \<le> 31"
    and nn: "0 \<le> sint (2 ^ s - 1 :: int32)"
    and lt: "sint (2 ^ s - 1 :: int32) * 2 ^ b < 2 ^ 31"
    by (simp_all add: shl_def split: if_splits)
  have s31: "s \<le> 31"
  proof (rule ccontr)
    assume "\<not> s \<le> 31"
    then have "(2 :: int32) ^ s = 0"
      by (simp add: exp_eq_zero_iff)
    with nn show False by simp
  qed
  show ?thesis
  proof (cases s)
    case 0
    with b show ?thesis by simp
  next
    case (Suc n)
    have "(2::int) ^ n * 2 ^ b \<le> (2 ^ s - 1) * 2 ^ b"
      unfolding Suc by (intro mult_right_mono) simp_all
    also have "\<dots> < 2 ^ 31"
      using lt by (simp only: sint_pow2_minus_1 [OF s31])
    finally have "(2::int) ^ (n + b) < 2 ^ 31"
      by (simp only: power_add)
    then have "n + b < 31"
      by (rule power_less_imp_less_exp [rotated]) simp
    with Suc show ?thesis by simp
  qed
qed

lemma set_for_defined:
  assumes "set_for address cache = Inr y" and "sint (block_bits cache) = int b"
    and "num_sets cache = 2 ^ s - 1"
  shows "s + b \<le> 31"
proof -
  from assms(1) obtain m where "shl (num_sets cache) (block_bits cache) = Inr m"
    by (auto simp add: set_for_def bind_e_Inr_iff)
  then show ?thesis
    using shl_defined [of s "block_bits cache" m b] assms(2,3) by simp
qed

lemma tag_for_defined:
  assumes "tag_for address cache = Inr y" and "sint (block_bits cache) = int b"
    and "num_sets cache = 2 ^ s - 1"
  shows "s + b \<le> 31"
proof -
  from assms(1) obtain m where "shl (num_sets cache) (block_bits cache) = Inr m"
    by (auto simp add: tag_for_def bind_e_Inr_iff)
  then show ?thesis
    using shl_defined [of s "block_bits cache" m b] assms(2,3) by simp
qed

lemma set_bits_unsigned:
  fixes a :: int32
  assumes "s + b \<le> 31"
  shows "signed_drop_bit b a AND mask s = drop_bit b a AND mask s"
  by (rule bit_word_eqI) (use assms in \<open>auto simp add: bit_simps\<close>)

lemma tag_low_bits:
  fixes a :: int32
  assumes "n \<le> 31"
  shows "take_bit (32 - n) (signed_drop_bit n a) = drop_bit n a"
  by (rule bit_word_eqI) (use assms in \<open>auto simp add: bit_simps dest: bit_imp_le_length\<close>)

lemma tag_of_positive:
  fixes a :: int32
  assumes "0 \<le> sint a"
  shows "signed_drop_bit n a = drop_bit n a"
proof -
  have "\<not> bit a 31"
    using assms bit_last_iff [of a] by simp
  then show ?thesis
    by (intro bit_word_eqI) (auto simp add: bit_simps dest: bit_imp_le_length)
qed

text \<open>
  Claim C4 takes the address for an unsigned number, so that the tag is the address shifted
  right with zeros coming in.  The program holds the address in an \<^verbatim>\<open>int\<close>: for the address
  \<open>0x9ABCDEF6\<close>, whose top bit is set, and two set bits and four block bits, \<^verbatim>\<open>tag_for\<close>
  returns \<open>0xFE6AF37B\<close>, not \<open>0x9ABCDEF6 >> 6 = 0x026AF37B\<close>.
\<close>

theorem tag_for_keeps_sign:
  "sint (set_bits example_cache) = 2 \<and> sint (block_bits example_cache) = 4 \<and>
   num_sets example_cache = 2 ^ 2 - 1 \<and> num_blocks example_cache = 2 ^ 4 - 1 \<and>
   tag_for 0x9ABCDEF6 example_cache = Inr 0xFE6AF37B \<and>
   drop_bit (2 + 4) (0x9ABCDEF6 :: int32) = 0x026AF37B \<and>
   tag_for 0x9ABCDEF6 example_cache \<noteq> Inr (drop_bit (2 + 4) 0x9ABCDEF6)"
  by code_simp

text \<open>
  Claim C4, amended.  Take a cache with \<open>s\<close> set bits and \<open>b\<close> block bits whose \<open>num_sets\<close>
  and \<open>num_blocks\<close> are \<open>2 ^ s - 1\<close> and \<open>2 ^ b - 1\<close>, as construction leaves them, and any
  address, held in a 32-bit \<^verbatim>\<open>int\<close>.  Whenever \<^verbatim>\<open>set_for\<close> returns, it returns
  \<open>(address >> b) & (2 ^ s - 1)\<close>, the same for the shift that keeps the sign and for the one
  that brings in zeros.  Whenever \<^verbatim>\<open>tag_for\<close> returns, it returns \<open>address >> (s + b)\<close> with
  the shift of C on an \<^verbatim>\<open>int\<close>, which keeps the sign: the low \<open>32 - (s + b)\<close> bits of the tag
  are the address shifted with zeros coming in, the bits above are copies of the top bit of
  the address, and for an address with the top bit clear the tag is the address shifted with
  zeros coming in.  Both functions return for \<open>s + b \<le> 31\<close>; beyond that the shifts of the
  program are undefined.  They return a number only and read nothing but the geometry: no
  state of the cache changes.
\<close>

theorem address_decomposition:
  assumes "sint (set_bits cache) = int s" and "sint (block_bits cache) = int b"
    and "num_sets cache = 2 ^ s - 1" and "num_blocks cache = 2 ^ b - 1"
  shows "(\<forall>set_n. set_for address cache = Inr set_n \<longrightarrow>
            set_n = signed_drop_bit b address AND (2 ^ s - 1) \<and>
            set_n = drop_bit b address AND (2 ^ s - 1)) \<and>
         (\<forall>t. tag_for address cache = Inr t \<longrightarrow>
            t = signed_drop_bit (s + b) address \<and>
            take_bit (32 - (s + b)) t = drop_bit (s + b) address \<and>
            (0 \<le> sint address \<longrightarrow> t = drop_bit (s + b) address)) \<and>
         (s + b \<le> 31 \<longrightarrow>
            (\<exists>set_n t. set_for address cache = Inr set_n \<and> tag_for address cache = Inr t))"
proof -
  have nb: "num_blocks cache = mask b"
    using assms(4) by (simp add: mask_eq_exp_minus_1)
  have set: "set_for address cache = Inr (signed_drop_bit b address AND (2 ^ s - 1))"
    if "s + b \<le> 31"
    by (rule set_for_eq [OF assms(1,2) that assms(3)])
  have tag: "tag_for address cache = Inr (signed_drop_bit (s + b) address)"
    if "s + b \<le> 31"
  proof -
    have "tag_for address cache =
            Inr (signed_drop_bit (s + b) (NOT (mask b OR push_bit b (mask s)) AND address))"
      using tag_for_eq [OF assms(1,2) that assms(3)] by (simp add: nb)
    then show ?thesis
      by (simp only: tag_bits_eq [OF that])
  qed
  show ?thesis
  proof (intro conjI allI impI)
    fix set_n assume d: "set_for address cache = Inr set_n"
    have le: "s + b \<le> 31"
      by (rule set_for_defined [OF d assms(2,3)])
    from set [OF le] d
    show 1: "set_n = signed_drop_bit b address AND (2 ^ s - 1)"
      by simp
    have "signed_drop_bit b address AND (2 ^ s - 1) = drop_bit b address AND (2 ^ s - 1)"
      using set_bits_unsigned [OF le, of address] by (simp add: mask_eq_exp_minus_1)
    with 1 show "set_n = drop_bit b address AND (2 ^ s - 1)"
      by simp
  next
    fix t assume d: "tag_for address cache = Inr t"
    have le: "s + b \<le> 31"
      by (rule tag_for_defined [OF d assms(2,3)])
    from tag [OF le] d
    show t: "t = signed_drop_bit (s + b) address"
      by simp
    show "take_bit (32 - (s + b)) t = drop_bit (s + b) address"
      unfolding t by (rule tag_low_bits [OF le])
    assume "0 \<le> sint address"
    then show "t = drop_bit (s + b) address"
      unfolding t by (rule tag_of_positive)
  next
    assume "s + b \<le> 31"
    with set tag show "\<exists>set_n t. set_for address cache = Inr set_n \<and> tag_for address cache = Inr t"
      by blast
  qed
qed

theorem address_decomposition_witness:
  "sint (set_bits example_cache) = int 2 \<and> sint (block_bits example_cache) = int 4 \<and>
   num_sets example_cache = 2 ^ 2 - 1 \<and> num_blocks example_cache = 2 ^ 4 - 1 \<and>
   (2::nat) + 4 \<le> 31 \<and>
   set_for 0x9ABCDEF6 example_cache = Inr 3 \<and>
   tag_for 0x9ABCDEF6 example_cache = Inr 0xFE6AF37B \<and>
   take_bit (32 - (2 + 4)) (0xFE6AF37B :: int32) = 0x026AF37B \<and>
   0 \<le> sint (0x1ABCDEF6 :: int32) \<and>
   set_for 0x1ABCDEF6 example_cache = Inr 3 \<and>
   tag_for 0x1ABCDEF6 example_cache = Inr 0x006AF37B"
proof -
  have h: "sint (set_bits example_cache) = int 2" "sint (block_bits example_cache) = int 4"
    "num_sets example_cache = 2 ^ 2 - 1" "num_blocks example_cache = 2 ^ 4 - 1"
    by (simp_all add: example_cache_def)
  note neg = address_decomposition [OF h, of "0x9ABCDEF6"]
  from neg obtain set_n t where d: "set_for 0x9ABCDEF6 example_cache = Inr set_n"
    "tag_for 0x9ABCDEF6 example_cache = Inr t"
    by auto
  with neg have "set_n = drop_bit 4 0x9ABCDEF6 AND (2 ^ 2 - 1)"
    "t = signed_drop_bit (2 + 4) 0x9ABCDEF6"
    "take_bit (32 - (2 + 4)) t = drop_bit (2 + 4) 0x9ABCDEF6"
    by blast+
  then have 1: "set_n = 3" "t = 0xFE6AF37B" "take_bit (32 - (2 + 4)) t = 0x026AF37B"
    by simp_all
  have p: "0 \<le> sint (0x1ABCDEF6 :: int32)"
    by simp
  note pos = address_decomposition [OF h, of "0x1ABCDEF6"]
  from pos obtain set_n' t' where d': "set_for 0x1ABCDEF6 example_cache = Inr set_n'"
    "tag_for 0x1ABCDEF6 example_cache = Inr t'"
    by auto
  with pos p have "set_n' = drop_bit 4 0x1ABCDEF6 AND (2 ^ 2 - 1)"
    "t' = drop_bit (2 + 4) 0x1ABCDEF6"
    by blast+
  then have 2: "set_n' = 3" "t' = 0x006AF37B"
    by simp_all
  from d d' 1 2 h p show ?thesis
    by simp
qed

subsection \<open>Construction\<close>

lemma pow2_minus_1_nat:
  assumes "sint bits = int s" "s \<le> 31"
  shows "pow2_minus_1 bits = Inr (2 ^ s - 1)"
  using assms by (simp add: pow2_minus_1_def)

lemma pow2_minus_1_total:
  assumes "sint bits \<le> int n" "n \<le> 31"
  shows "\<exists>m. pow2_minus_1 bits = Inr m \<and> - 1 \<le> sint m \<and> sint m < 2 ^ n"
proof (cases "0 \<le> sint bits")
  case True
  define s where "s = nat (sint bits)"
  have s: "sint bits = int s" "s \<le> n" "s \<le> 31"
    using True assms by (simp_all add: s_def)
  have "(0::int) < 2 ^ s" by simp
  moreover have "(2::int) ^ s \<le> 2 ^ n"
    using s(2) by (intro power_increasing) simp_all
  ultimately have "- 1 \<le> (2::int) ^ s - 1 \<and> (2::int) ^ s - 1 < 2 ^ n"
    by linarith
  then have "- 1 \<le> sint (2 ^ s - 1 :: int32) \<and> sint (2 ^ s - 1 :: int32) < 2 ^ n"
    by (simp only: sint_pow2_minus_1 [OF s(3)])
  then show ?thesis
    using pow2_minus_1_nat [OF s(1,3)] by simp
next
  case False
  have "(0::int) < 2 ^ n" by simp
  then have "(0::int) < 2 ^ n \<and> (- 1::int) < 2 ^ n" by linarith
  then show ?thesis using False by (simp add: pow2_minus_1_def)
qed

lemma make_cache_eq:
  assumes "pow2_minus_1 s_bits = Inr n_sets" and "pow2_minus_1 b_bits = Inr n_blocks"
    and "- 1 \<le> sint n_sets" and "sint n_sets < 2 ^ 30"
  shows "make_cache s_bits assoc b_bits v_set =
     Inr \<lparr>set_bits = s_bits, associativity = assoc, block_bits = b_bits,
          num_sets = n_sets, num_blocks = n_blocks,
          miss_count = 0, hit_count = 0, evict_count = 0,
          flag_v_set = v_set, instr_count = 0,
          set_arry = map (\<lambda>set_n. make_cache_set assoc) [0 .. sint n_sets]\<rparr>"
  using assms by (simp add: make_cache_def add_int_def)

lemma make_cache_new:
  assumes "make_cache s_bits assoc b_bits v_set = Inr c0"
  shows "hit_count c0 = 0" "miss_count c0 = 0" "evict_count c0 = 0" "instr_count c0 = 0"
    "set_bits c0 = s_bits" "associativity c0 = assoc" "block_bits c0 = b_bits"
  using assms by (auto simp add: make_cache_def bind_e_Inr_iff)

lemma make_cache_defined:
  assumes "make_cache s_bits assoc b_bits v_set = Inr cache" and "sint s_bits = int s"
  shows "s \<le> 30" and "sint b_bits \<le> 31"
proof -
  from assms(1) obtain n_sets n_blocks m where ns: "pow2_minus_1 s_bits = Inr n_sets"
    and nb: "pow2_minus_1 b_bits = Inr n_blocks" and add: "add_int n_sets 1 = Inr m"
    by (auto simp add: make_cache_def bind_e_Inr_iff)
  from nb show "sint b_bits \<le> 31"
    by (simp add: pow2_minus_1_def split: if_splits)
  from ns assms(2) have s31: "s \<le> 31" and n_sets: "n_sets = 2 ^ s - 1"
    by (simp_all add: pow2_minus_1_def split: if_splits)
  from add have "sint n_sets + 1 < 2 ^ 31"
    by (simp add: add_int_def split: if_splits)
  then have "(2::int) ^ s < 2 ^ 31"
    by (simp add: n_sets sint_pow2_minus_1 [OF s31])
  then have "s < 31"
    by (rule power_less_imp_less_exp [rotated]) simp
  then show "s \<le> 30" by simp
qed

text \<open>
  Claim C8.  For \<open>set_bits = s \<ge> 0\<close> and an associativity of at least one, every cache that
  \<^verbatim>\<open>make_cache\<close> returns has exactly \<open>2 ^ s\<close> sets (\<open>num_sets\<close> is \<open>2 ^ s - 1\<close> and the sets
  \<open>0 \<dots> num_sets\<close> are made), each set has exactly \<open>associativity\<close> lines, every line has
  \<open>valid = 0\<close>, \<open>tag = 0\<close>, \<open>age = 0\<close>, and the four counters are zero.  \<^verbatim>\<open>make_cache\<close>
  returns for \<open>s \<le> 30\<close> and \<open>block_bits \<le> 31\<close>; beyond that \<open>num_sets + 1\<close> or
  \<open>pow(2, bits) - 1\<close> is no \<^verbatim>\<open>int\<close>.
\<close>

theorem make_cache_allocates:
  assumes "sint s_bits = int s" and "1 \<le> sint assoc"
  shows "(\<forall>cache. make_cache s_bits assoc b_bits v_set = Inr cache \<longrightarrow>
           length (set_arry cache) = 2 ^ s \<and>
           (\<forall>set_n < length (set_arry cache).
              length (lines (set_arry cache ! set_n)) = nat (sint assoc) \<and>
              (\<forall>line_n < nat (sint assoc).
                 valid (lines (set_arry cache ! set_n) ! line_n) = 0 \<and>
                 tag (lines (set_arry cache ! set_n) ! line_n) = 0 \<and>
                 age (lines (set_arry cache ! set_n) ! line_n) = 0)) \<and>
           hit_count cache = 0 \<and> miss_count cache = 0 \<and> evict_count cache = 0 \<and>
           instr_count cache = 0) \<and>
         (s \<le> 30 \<and> sint b_bits \<le> 31 \<longrightarrow>
            (\<exists>cache. make_cache s_bits assoc b_bits v_set = Inr cache))"
proof -
  have built: "\<exists>n_blocks. make_cache s_bits assoc b_bits v_set =
     Inr \<lparr>set_bits = s_bits, associativity = assoc, block_bits = b_bits,
          num_sets = 2 ^ s - 1, num_blocks = n_blocks,
          miss_count = 0, hit_count = 0, evict_count = 0,
          flag_v_set = v_set, instr_count = 0,
          set_arry = map (\<lambda>set_n. make_cache_set assoc) [0 .. 2 ^ s - 1]\<rparr>"
    if s30: "s \<le> 30" and b31: "sint b_bits \<le> 31"
  proof -
    have s31: "s \<le> 31" using s30 by simp
    have ns: "pow2_minus_1 s_bits = Inr (2 ^ s - 1)"
      by (rule pow2_minus_1_nat [OF assms(1) s31])
    obtain n_blocks where nb: "pow2_minus_1 b_bits = Inr n_blocks"
      using pow2_minus_1_total [of b_bits 31] b31 by auto
    have sn: "sint (2 ^ s - 1 :: int32) = 2 ^ s - 1"
      by (rule sint_pow2_minus_1 [OF s31])
    have pos: "(0::int) < 2 ^ s" by simp
    have le: "(2::int) ^ s \<le> 2 ^ 30"
      using s30 by (intro power_increasing) simp_all
    have r1: "- 1 \<le> sint (2 ^ s - 1 :: int32)" using pos sn by linarith
    have r2: "sint (2 ^ s - 1 :: int32) < 2 ^ 30" using le sn by linarith
    show ?thesis
      unfolding make_cache_eq [OF ns nb r1 r2] sn by blast
  qed
  have len: "nat (2 ^ s) = (2::nat) ^ s"
    by (simp add: nat_power_eq)
  show ?thesis
  proof (intro conjI allI impI)
    fix cache assume d: "make_cache s_bits assoc b_bits v_set = Inr cache"
    from built [OF make_cache_defined [OF d assms(1)]] d
    obtain n_blocks where cache: "cache =
       \<lparr>set_bits = s_bits, associativity = assoc, block_bits = b_bits,
          num_sets = 2 ^ s - 1, num_blocks = n_blocks,
          miss_count = 0, hit_count = 0, evict_count = 0,
          flag_v_set = v_set, instr_count = 0,
          set_arry = map (\<lambda>set_n. make_cache_set assoc) [0 .. 2 ^ s - 1]\<rparr>"
      by auto
    show "length (set_arry cache) = 2 ^ s"
      by (simp add: cache len)
    show "hit_count cache = 0" "miss_count cache = 0" "evict_count cache = 0" "instr_count cache = 0"
      by (simp_all add: cache)
    fix set_n assume "set_n < length (set_arry cache)"
    then have set_n: "set_arry cache ! set_n = make_cache_set assoc"
      by (simp add: cache)
    show "length (lines (set_arry cache ! set_n)) = nat (sint assoc)"
      by (simp add: set_n make_cache_set_def)
    fix line_n assume "line_n < nat (sint assoc)"
    then show "valid (lines (set_arry cache ! set_n) ! line_n) = 0"
      "tag (lines (set_arry cache ! set_n) ! line_n) = 0"
      "age (lines (set_arry cache ! set_n) ! line_n) = 0"
      by (simp_all add: set_n make_cache_set_def make_cache_line_def)
  next
    assume "s \<le> 30 \<and> sint b_bits \<le> 31"
    with built show "\<exists>cache. make_cache s_bits assoc b_bits v_set = Inr cache"
      by blast
  qed
qed

theorem make_cache_allocates_witness:
  "sint (2::int32) = int 2 \<and> 1 \<le> sint (1::int32) \<and> (2::nat) \<le> 30 \<and> sint (4::int32) \<le> 31 \<and>
   make_cache 2 1 4 0 = Inr example_cache \<and> length (set_arry example_cache) = 2 ^ 2 \<and>
   map lines (set_arry example_cache) =
     replicate 4 [\<lparr>valid = 0, dirty = 0, tag = 0, age = 0, data = None\<rparr>] \<and>
   hit_count example_cache = 0 \<and> miss_count example_cache = 0 \<and>
   evict_count example_cache = 0 \<and> instr_count example_cache = 0"
proof -
  have h: "sint (2::int32) = int 2" "1 \<le> sint (1::int32)"
    by simp_all
  have mk: "make_cache 2 1 4 0 = Inr example_cache"
    by code_simp
  from make_cache_allocates [OF h, of 4 0] mk
  have "length (set_arry example_cache) = 2 ^ 2 \<and>
    hit_count example_cache = 0 \<and> miss_count example_cache = 0 \<and>
    evict_count example_cache = 0 \<and> instr_count example_cache = 0"
    by blast
  moreover have "map lines (set_arry example_cache) =
     replicate 4 [\<lparr>valid = 0, dirty = 0, tag = 0, age = 0, data = None\<rparr>]"
    by code_simp
  ultimately show ?thesis
    using h mk by simp
qed

text \<open>
  Claim C7 says that construction fails for an associativity \<open>\<le> 0\<close> or a negative parameter.
  It does not: \<^verbatim>\<open>make_cache\<close> checks nothing.  With associativity \<open>0\<close> it returns a cache
  whose set has no line, and the first \<^verbatim>\<open>lookup\<close> of \<^verbatim>\<open>main\<close> then writes outside the set;
  with \<open>set_bits = - 1\<close> it returns a cache of one set, and \<^verbatim>\<open>main\<close> runs the trace on it
  (one miss, then one hit).
\<close>

theorem make_cache_takes_bad_geometry:
  "sint (0 :: int32) \<le> 0 \<and>
   make_cache 0 0 0 0 =
     Inr \<lparr>set_bits = 0, associativity = 0, block_bits = 0, num_sets = 0, num_blocks = 0,
          miss_count = 0, hit_count = 0, evict_count = 0, flag_v_set = 0, instr_count = 0,
          set_arry = [\<lparr>lines = []\<rparr>]\<rparr> \<and>
   main 0 0 0 0 [Access CHR ''L'' 0] = Inl Out_Of_Bounds \<and>
   sint (- 1 :: int32) < 0 \<and>
   make_cache (- 1) 1 1 0 =
     Inr \<lparr>set_bits = - 1, associativity = 1, block_bits = 1, num_sets = 0, num_blocks = 1,
          miss_count = 0, hit_count = 0, evict_count = 0, flag_v_set = 0, instr_count = 0,
          set_arry = [\<lparr>lines = [\<lparr>valid = 0, dirty = 0, tag = 0, age = 0, data = None\<rparr>]\<rparr>]\<rparr> \<and>
   main (- 1) 1 1 0 [Access CHR ''L'' 0, Access CHR ''L'' 0] = Inr (1, 1, 0)"
  by code_simp

text \<open>
  Claim C7, amended.  \<^verbatim>\<open>make_cache\<close> validates nothing: for every associativity, also zero
  and negative ones, and all \<open>set_bits \<le> 30\<close> and \<open>block_bits \<le> 31\<close>, also negative ones, it
  returns a cache that holds the three parameters as given, and \<^verbatim>\<open>main\<close> goes on to run
  \<^verbatim>\<open>read_file\<close> on that cache.
\<close>

theorem make_cache_accepts:
  assumes "sint s_bits \<le> 30" and "sint b_bits \<le> 31"
  shows "\<exists>cache. make_cache s_bits assoc b_bits v_set = Inr cache \<and>
           set_bits cache = s_bits \<and> associativity cache = assoc \<and> block_bits cache = b_bits \<and>
           main s_bits assoc b_bits v_set trace =
             bind_e (read_file cache trace) (\<lambda>mycache'.
               Inr (hit_count mycache', miss_count mycache', evict_count mycache'))"
proof -
  obtain n_sets where ns: "pow2_minus_1 s_bits = Inr n_sets"
    and r: "- 1 \<le> sint n_sets" "sint n_sets < 2 ^ 30"
    using pow2_minus_1_total [of s_bits 30] assms(1) by auto
  obtain n_blocks where nb: "pow2_minus_1 b_bits = Inr n_blocks"
    using pow2_minus_1_total [of b_bits 31] assms(2) by auto
  show ?thesis
    unfolding main_def make_cache_eq [OF ns nb r]
    by simp
qed

theorem make_cache_accepts_witness:
  "sint (- 1 :: int32) \<le> 30 \<and> sint (1 :: int32) \<le> 31 \<and>
   (\<exists>cache. make_cache (- 1) 0 1 0 = Inr cache \<and> associativity cache = 0 \<and>
      main (- 1) 0 1 0 [] = Inr (0, 0, 0))"
  using make_cache_accepts [where s_bits = "- 1" and b_bits = 1 and assoc = 0 and v_set = 0
      and trace = "[]"]
  by (auto simp add: make_cache_def pow2_minus_1_def add_int_def)

subsection \<open>The scenario of four accesses\<close>

text \<open>
  Claim C2 expects one eviction in all for the addresses \<open>0, 1, 2, 0\<close> in the cache of geometry
  \<open>(0, 2, 0)\<close>.  The four calls of \<^verbatim>\<open>lookup\<close> leave \<open>evict_count = 2\<close>: the fourth access
  misses in a full set and evicts as well.
\<close>

theorem four_accesses_evict_twice:
  "bind_e (bind_e (bind_e (bind_e (make_cache 0 2 0 0) (lookup 0)) (lookup 1)) (lookup 2)) (lookup 0)
     = Inr (small_cache (0, 4, 2) 4 [(1, 2, 3), (1, 0, 4)]) \<and>
   evict_count (small_cache (0, 4, 2) 4 [(1, 2, 3), (1, 0, 4)]) \<noteq> 1"
  by code_simp

text \<open>
  Claim C2, amended.  In the cache of geometry \<open>(0, 2, 0)\<close> the four calls of \<^verbatim>\<open>lookup\<close> on
  \<open>0, 1, 2, 0\<close> give: a miss that fills line 0; a miss that fills line 1; a miss that evicts
  the line holding address 0 (line 0, the older one); a miss that evicts the line holding
  address 1 (line 1, then the older one).  The final counters are \<open>hit_count = 0\<close>,
  \<open>miss_count = 4\<close>, \<open>evict_count = 2\<close>.
\<close>

theorem four_accesses:
  "make_cache 0 2 0 0 = Inr (small_cache (0, 0, 0) 0 [(0, 0, 0), (0, 0, 0)]) \<and>
   lookup 0 (small_cache (0, 0, 0) 0 [(0, 0, 0), (0, 0, 0)])
     = Inr (small_cache (0, 1, 0) 1 [(1, 0, 1), (0, 0, 0)]) \<and>
   lookup 1 (small_cache (0, 1, 0) 1 [(1, 0, 1), (0, 0, 0)])
     = Inr (small_cache (0, 2, 0) 2 [(1, 0, 1), (1, 1, 2)]) \<and>
   lookup 2 (small_cache (0, 2, 0) 2 [(1, 0, 1), (1, 1, 2)])
     = Inr (small_cache (0, 3, 1) 3 [(1, 2, 3), (1, 1, 2)]) \<and>
   lookup 0 (small_cache (0, 3, 1) 3 [(1, 2, 3), (1, 1, 2)])
     = Inr (small_cache (0, 4, 2) 4 [(1, 2, 3), (1, 0, 4)])"
  by code_simp

subsection \<open>The loop of \<^verbatim>\<open>check_for_hit\<close>\<close>

lemma read_line_Inr_iff:
  "read_line c k j = Inr l \<longleftrightarrow>
     k < length (set_arry c) \<and> j < length (lines (set_arry c ! k)) \<and> l = lines (set_arry c ! k) ! j"
  by (auto simp: read_line_def)

lemma read_line_nth:
  assumes "k < length (set_arry c)"
  shows "read_line c k i = Inr l \<longleftrightarrow> i < length (lines (set_arry c ! k)) \<and> l = lines (set_arry c ! k) ! i"
  using assms by (auto simp add: read_line_def)

lemma no_hit_from_step:
  assumes "read_line c k n = Inr l" "\<not> hit_line t l" "no_hit_from c k t (Suc n)"
  shows "no_hit_from c k t n"
  unfolding no_hit_from_def
proof (intro allI impI)
  fix i assume i: "n \<le> i \<and> int i < sint (associativity c)"
  show "\<exists>l. read_line c k i = Inr l \<and> \<not> hit_line t l"
  proof (cases "i = n")
    case True
    with assms(1,2) show ?thesis by simp
  next
    case False
    with i have "Suc n \<le> i \<and> int i < sint (associativity c)" by simp
    with assms(3) show ?thesis unfolding no_hit_from_def by blast
  qed
qed

lemma first_hit_from_step:
  assumes "read_line c k n = Inr l" "\<not> hit_line t l" "first_hit_from c k t (Suc n) j l'"
  shows "first_hit_from c k t n j l'"
proof -
  have "\<exists>l'. read_line c k i = Inr l' \<and> \<not> hit_line t l'" if i: "n \<le> i \<and> i < j" for i
  proof (cases "i = n")
    case True
    with assms(1,2) show ?thesis by simp
  next
    case False
    with i have "Suc n \<le> i \<and> i < j" by simp
    with assms(3) show ?thesis unfolding first_hit_from_def by blast
  qed
  with assms(3) show ?thesis
    unfolding first_hit_from_def by simp
qed

lemma first_hit_from_here:
  assumes "read_line c k n = Inr l" "hit_line t l" "int n < sint (associativity c)"
  shows "first_hit_from c k t n n l"
  using assms by (auto simp add: first_hit_from_def)

lemma check_for_hit_from_Inr:
  assumes "check_for_hit_from c k t n = Inr (c', r)"
  shows "(r = 0 \<and> c' = c \<and> no_hit_from c k t n) \<or>
         (r = 1 \<and> hit_count c \<noteq> INT_MAX \<and>
          (\<exists>j l. first_hit_from c k t n j l \<and>
             c' = (write_line c k j (l\<lparr>age := instr_count c\<rparr>))\<lparr>hit_count := hit_count c + 1\<rparr>))"
  using assms
proof (induction c k t n rule: check_for_hit_from.induct)
  case (1 c k t n)
  show ?case
  proof (cases "int n < sint (associativity c)")
    case False
    then have "\<not> (n \<le> i \<and> int i < sint (associativity c))" for i
      by linarith
    then have "no_hit_from c k t n"
      unfolding no_hit_from_def by blast
    moreover from False "1.prems" have "r = 0" "c' = c"
      by (simp_all add: check_for_hit_from.simps [of c k t n])
    ultimately show ?thesis by blast
  next
    case True
    with "1.prems" obtain l where rl: "read_line c k n = Inr l"
      and rest: "(if tag l = scast t \<and> valid l \<noteq> 0 then
            bind_e (incr (hit_count c)) (\<lambda>h.
              Inr ((write_line c k n (l\<lparr>age := instr_count c\<rparr>))\<lparr>hit_count := h\<rparr>, 1))
          else check_for_hit_from c k t (Suc n)) = Inr (c', r)"
      by (auto simp add: check_for_hit_from.simps [of c k t n] bind_e_Inr_iff)
    show ?thesis
    proof (cases "hit_line t l")
      case hit: True
      with rest have "hit_count c \<noteq> INT_MAX" "r = 1"
        "c' = (write_line c k n (l\<lparr>age := instr_count c\<rparr>))\<lparr>hit_count := hit_count c + 1\<rparr>"
        by (auto simp add: hit_line_def bind_e_Inr_iff incr_Inr_iff)
      with first_hit_from_here [OF rl hit True] show ?thesis
        by blast
    next
      case False
      with rest have rec: "check_for_hit_from c k t (Suc n) = Inr (c', r)"
        by (auto simp add: hit_line_def split: if_splits)
      from False have nm: "\<not> (tag l = scast t \<and> valid l \<noteq> 0)"
        by (simp add: hit_line_def)
      from "1.IH" [OF True nm rec]
      show ?thesis
        using no_hit_from_step [OF rl False] first_hit_from_step [OF rl False]
        by blast
    qed
  qed
qed

lemma check_for_hit_from_total:
  assumes "k < length (set_arry c)"
    and "nat (sint (associativity c)) \<le> length (lines (set_arry c ! k))"
    and "hit_count c \<noteq> INT_MAX \<or> no_hit_from c k t n"
  shows "\<exists>c' r. check_for_hit_from c k t n = Inr (c', r)"
  using assms
proof (induction c k t n rule: check_for_hit_from.induct)
  case (1 c k t n)
  show ?case
  proof (cases "int n < sint (associativity c)")
    case False
    then show ?thesis
      by (simp add: check_for_hit_from.simps [of c k t n])
  next
    case True
    with "1.prems" have "n < length (lines (set_arry c ! k))" by linarith
    with "1.prems" obtain l where rl: "read_line c k n = Inr l"
      by (simp add: read_line_def)
    show ?thesis
    proof (cases "tag l = scast t \<and> valid l \<noteq> 0")
      case hit: True
      with rl True have "\<not> no_hit_from c k t n"
        unfolding no_hit_from_def hit_line_def by auto
      with "1.prems"(3) have "hit_count c \<noteq> INT_MAX" by simp
      with True rl hit show ?thesis
        by (simp add: check_for_hit_from.simps [of c k t n] incr_def)
    next
      case False
      have "no_hit_from c k t (Suc n)" if "no_hit_from c k t n"
        using that unfolding no_hit_from_def by auto
      with "1.prems"(3) have "hit_count c \<noteq> INT_MAX \<or> no_hit_from c k t (Suc n)"
        by blast
      from "1.IH" [OF True False "1.prems"(1,2) this] True rl False show ?thesis
        by (auto simp add: check_for_hit_from.simps [of c k t n])
    qed
  qed
qed

subsection \<open>The loop of \<^verbatim>\<open>miss\<close>\<close>

lemma all_valid_from_step:
  assumes "read_line c k n = Inr l" "valid l \<noteq> 0" "all_valid_from c k (Suc n)"
  shows "all_valid_from c k n"
  unfolding all_valid_from_def
proof (intro allI impI)
  fix i assume i: "n \<le> i \<and> int i < sint (associativity c)"
  show "\<exists>l. read_line c k i = Inr l \<and> valid l \<noteq> 0"
  proof (cases "i = n")
    case True
    with assms(1,2) show ?thesis by simp
  next
    case False
    with i have "Suc n \<le> i \<and> int i < sint (associativity c)" by simp
    with assms(3) show ?thesis unfolding all_valid_from_def by blast
  qed
qed

lemma first_invalid_from_step:
  assumes "read_line c k n = Inr l" "valid l \<noteq> 0" "first_invalid_from c k (Suc n) j l'"
  shows "first_invalid_from c k n j l'"
proof -
  have "\<exists>l'. read_line c k i = Inr l' \<and> valid l' \<noteq> 0" if i: "n \<le> i \<and> i < j" for i
  proof (cases "i = n")
    case True
    with assms(1,2) show ?thesis by simp
  next
    case False
    with i have "Suc n \<le> i \<and> i < j" by simp
    with assms(3) show ?thesis unfolding first_invalid_from_def by blast
  qed
  with assms(3) show ?thesis
    unfolding first_invalid_from_def by simp
qed

lemma oldest_from_done:
  assumes "\<not> int n < sint (associativity c)"
  shows "oldest_from c k oldest n oldest"
proof -
  from assms have "\<not> (n \<le> i \<and> int i < sint (associativity c))" for i
    by linarith
  then show ?thesis
    unfolding oldest_from_def by auto
qed

lemma oldest_from_step:
  assumes "oldest_from c k (if age_at c k n < age_at c k oldest then n else oldest) (Suc n) v"
    and "int n < sint (associativity c)"
  shows "oldest_from c k oldest n v"
proof (cases "age_at c k n < age_at c k oldest")
  case True
  with assms(1) have v: "v = n \<or> (Suc n \<le> v \<and> int v < sint (associativity c))"
    and le: "age_at c k v \<le> age_at c k n"
    and all: "\<And>i. Suc n \<le> i \<Longrightarrow> int i < sint (associativity c) \<Longrightarrow> age_at c k v \<le> age_at c k i"
    and strict: "v \<noteq> n \<Longrightarrow> age_at c k v < age_at c k n"
    and before: "\<And>i. v \<noteq> n \<Longrightarrow> Suc n \<le> i \<Longrightarrow> i < v \<Longrightarrow> age_at c k v < age_at c k i"
    unfolding oldest_from_def by simp_all
  have 1: "v = oldest \<or> (n \<le> v \<and> int v < sint (associativity c))"
    using v assms(2) by auto
  have 2: "age_at c k v < age_at c k oldest"
    using le True by simp
  have 3: "age_at c k v \<le> age_at c k i" if "n \<le> i" "int i < sint (associativity c)" for i
    using that le all [of i] by (cases "i = n") auto
  have 4: "age_at c k v < age_at c k i" if "n \<le> i" "i < v" for i
  proof (cases "i = n")
    case True
    with that strict show ?thesis by auto
  next
    case False
    with that before [of i] show ?thesis by auto
  qed
  from 1 2 3 4 show ?thesis
    unfolding oldest_from_def by auto
next
  case False
  with assms(1) have v: "v = oldest \<or> (Suc n \<le> v \<and> int v < sint (associativity c))"
    and le: "age_at c k v \<le> age_at c k oldest"
    and all: "\<And>i. Suc n \<le> i \<Longrightarrow> int i < sint (associativity c) \<Longrightarrow> age_at c k v \<le> age_at c k i"
    and strict: "v \<noteq> oldest \<Longrightarrow> age_at c k v < age_at c k oldest"
    and before: "\<And>i. v \<noteq> oldest \<Longrightarrow> Suc n \<le> i \<Longrightarrow> i < v \<Longrightarrow> age_at c k v < age_at c k i"
    unfolding oldest_from_def by simp_all
  have on: "age_at c k oldest \<le> age_at c k n"
    using False by simp
  have 1: "v = oldest \<or> (n \<le> v \<and> int v < sint (associativity c))"
    using v by auto
  have 3: "age_at c k v \<le> age_at c k i" if "n \<le> i" "int i < sint (associativity c)" for i
    using that le on all [of i] by (cases "i = n") auto
  have 4: "age_at c k v < age_at c k i" if "v \<noteq> oldest" "n \<le> i" "i < v" for i
  proof (cases "i = n")
    case True
    with that strict on show ?thesis by auto
  next
    case False
    with that before [of i] show ?thesis by auto
  qed
  from 1 le 3 strict 4 show ?thesis
    unfolding oldest_from_def by auto
qed

lemma evict_Inr_iff:
  "evict c (k, v) t = Inr c' \<longleftrightarrow>
     evict_count c \<noteq> INT_MAX \<and>
     (\<exists>l. read_line c k v = Inr l \<and>
        c' = write_line (c\<lparr>evict_count := evict_count c + 1\<rparr>) k v
               (l\<lparr>tag := scast t, age := instr_count c\<rparr>))"
  by (auto simp add: evict_def bind_e_Inr_iff incr_Inr_iff)

lemma miss_from_Inr:
  assumes "miss_from c k t oldest n = Inr c'"
  shows "(\<exists>j l. first_invalid_from c k n j l \<and>
            c' = write_line c k j (l\<lparr>tag := scast t, valid := 1, age := instr_count c\<rparr>)) \<or>
         (all_valid_from c k n \<and> evict_count c \<noteq> INT_MAX \<and>
          (\<exists>v l. oldest_from c k oldest n v \<and> read_line c k v = Inr l \<and>
             c' = write_line (c\<lparr>evict_count := evict_count c + 1\<rparr>) k v
                    (l\<lparr>tag := scast t, age := instr_count c\<rparr>)))"
  using assms
proof (induction c k t oldest n rule: miss_from.induct)
  case (1 c k t oldest n)
  show ?case
  proof (cases "int n < sint (associativity c)")
    case False
    then have "\<not> (n \<le> i \<and> int i < sint (associativity c))" for i
      by linarith
    then have "all_valid_from c k n"
      unfolding all_valid_from_def by blast
    moreover from False "1.prems" have "evict c (k, oldest) t = Inr c'"
      by (simp add: miss_from.simps [of c k t oldest n])
    ultimately show ?thesis
      using oldest_from_done [OF False, of k oldest]
      by (auto simp add: evict_Inr_iff)
  next
    case True
    with "1.prems" obtain l old where rl: "read_line c k n = Inr l"
      and ro: "read_line c k oldest = Inr old"
      and rest: "(if valid l = 0 then
                    Inr (write_line c k n (l\<lparr>tag := scast t, valid := 1, age := instr_count c\<rparr>))
                  else miss_from c k t (if age l < age old then n else oldest) (Suc n)) = Inr c'"
      by (auto simp add: miss_from.simps [of c k t oldest n] bind_e_Inr_iff Let_def)
    have ages: "age l = age_at c k n" "age old = age_at c k oldest"
      using rl ro by (simp_all add: read_line_Inr_iff age_at_def)
    show ?thesis
    proof (cases "valid l = 0")
      case inv: True
      with rest have "c' = write_line c k n (l\<lparr>tag := scast t, valid := 1, age := instr_count c\<rparr>)"
        by simp
      moreover have "first_invalid_from c k n n l"
        using rl inv True by (auto simp add: first_invalid_from_def)
      ultimately show ?thesis by blast
    next
      case False
      with rest have rec: "miss_from c k t (if age l < age old then n else oldest) (Suc n) = Inr c'"
        by simp
      from "1.IH" [OF True refl False rec]
      show ?thesis
        using all_valid_from_step [OF rl False] first_invalid_from_step [OF rl False]
          oldest_from_step [OF _ True, of k oldest]
        unfolding ages by blast
    qed
  qed
qed

lemma miss_from_total:
  assumes "k < length (set_arry c)"
    and "nat (sint (associativity c)) \<le> length (lines (set_arry c ! k))"
    and "oldest < length (lines (set_arry c ! k))"
    and "evict_count c \<noteq> INT_MAX \<or> \<not> all_valid_from c k n"
  shows "\<exists>c'. miss_from c k t oldest n = Inr c'"
  using assms
proof (induction c k t oldest n rule: miss_from.induct)
  case (1 c k t oldest n)
  from "1.prems" obtain old where ro: "read_line c k oldest = Inr old"
    by (simp add: read_line_def)
  show ?case
  proof (cases "int n < sint (associativity c)")
    case False
    then have "\<not> (n \<le> i \<and> int i < sint (associativity c))" for i
      by linarith
    then have "all_valid_from c k n"
      unfolding all_valid_from_def by blast
    with "1.prems"(4) have "evict_count c \<noteq> INT_MAX" by simp
    with False ro show ?thesis
      by (simp add: miss_from.simps [of c k t oldest n] evict_def incr_def)
  next
    case True
    with "1.prems" have n: "n < length (lines (set_arry c ! k))" by linarith
    with "1.prems" obtain l where rl: "read_line c k n = Inr l"
      by (simp add: read_line_def)
    show ?thesis
    proof (cases "valid l = 0")
      case inv: True
      with True rl ro show ?thesis
        by (simp add: miss_from.simps [of c k t oldest n])
    next
      case False
      have o: "(if age l < age old then n else oldest) < length (lines (set_arry c ! k))"
        using n "1.prems"(3) by simp
      from "1.prems"(4) all_valid_from_step [OF rl False]
      have "evict_count c \<noteq> INT_MAX \<or> \<not> all_valid_from c k (Suc n)"
        by blast
      from "1.IH" [OF True refl False "1.prems"(1,2) o this] True rl ro False
      show ?thesis
        by (simp add: miss_from.simps [of c k t oldest n])
    qed
  qed
qed

subsection \<open>Hit detection and miss resolution\<close>

text \<open>
  Claim C3.  Let \<open>ls\<close> be the lines of set \<open>k\<close>, as many as the associativity says.  If some
  line of \<open>ls\<close> is valid and holds the tag, \<^verbatim>\<open>check_for_hit\<close> takes the first such line \<open>j\<close>,
  sets its age to \<open>instr_count\<close>, increments \<open>hit_count\<close> and returns \<open>1\<close>; nothing else
  changes.  If no line is, it returns \<open>0\<close> and the cache as it was.  The increment needs
  \<open>hit_count\<close> below the largest \<^verbatim>\<open>int\<close>.
\<close>

theorem check_for_hit_first_match:
  assumes "k < length (set_arry c)" and "ls = lines (set_arry c ! k)"
    and "length ls = nat (sint (associativity c))"
  shows "((\<exists>j<length ls. hit_line t (ls ! j)) \<and> hit_count c \<noteq> INT_MAX \<longrightarrow>
           (\<exists>j<length ls. hit_line t (ls ! j) \<and> (\<forall>i<j. \<not> hit_line t (ls ! i)) \<and>
              check_for_hit c k t =
                Inr ((write_line c k j ((ls ! j)\<lparr>age := instr_count c\<rparr>))
                        \<lparr>hit_count := hit_count c + 1\<rparr>, 1))) \<and>
         ((\<forall>j<length ls. \<not> hit_line t (ls ! j)) \<longrightarrow> check_for_hit c k t = Inr (c, 0))"
proof -
  have rd: "read_line c k i = Inr l \<longleftrightarrow> i < length ls \<and> l = ls ! i" for i l
    using read_line_nth [OF assms(1)] assms(2) by simp
  have bound: "int i < sint (associativity c) \<longleftrightarrow> i < length ls" for i
    using assms(3) by linarith
  have none_iff: "no_hit_from c k t 0 \<longleftrightarrow> (\<forall>j<length ls. \<not> hit_line t (ls ! j))"
    unfolding no_hit_from_def by (simp add: rd bound)
  have len: "nat (sint (associativity c)) \<le> length (lines (set_arry c ! k))"
    using assms(2,3) by simp
  have result: "(\<exists>j<length ls. hit_line t (ls ! j) \<and> (\<forall>i<j. \<not> hit_line t (ls ! i)) \<and>
              check_for_hit c k t =
                Inr ((write_line c k j ((ls ! j)\<lparr>age := instr_count c\<rparr>))
                        \<lparr>hit_count := hit_count c + 1\<rparr>, 1)) \<or>
         ((\<forall>j<length ls. \<not> hit_line t (ls ! j)) \<and> check_for_hit c k t = Inr (c, 0))"
    if hyp: "hit_count c \<noteq> INT_MAX \<or> no_hit_from c k t 0"
  proof -
    obtain c' r where res: "check_for_hit_from c k t 0 = Inr (c', r)"
      using check_for_hit_from_total [OF assms(1) len hyp] by auto
    from check_for_hit_from_Inr [OF res]
    consider (none) "r = 0" "c' = c" "no_hit_from c k t 0"
      | (hit) j l where "r = 1" "first_hit_from c k t 0 j l"
          "c' = (write_line c k j (l\<lparr>age := instr_count c\<rparr>))\<lparr>hit_count := hit_count c + 1\<rparr>"
      by blast
    then show ?thesis
    proof cases
      case none
      with res show ?thesis
        by (simp add: check_for_hit_def none_iff)
    next
      case hit
      from hit(2) have j: "j < length ls" "l = ls ! j" "hit_line t (ls ! j)"
        and first: "\<forall>i<j. \<not> hit_line t (ls ! i)"
        unfolding first_hit_from_def by (auto simp add: rd bound)
      have "check_for_hit c k t =
              Inr ((write_line c k j ((ls ! j)\<lparr>age := instr_count c\<rparr>))
                      \<lparr>hit_count := hit_count c + 1\<rparr>, 1)"
        using res hit(1,3) j(2) by (simp add: check_for_hit_def)
      with j first show ?thesis by blast
    qed
  qed
  show ?thesis
  proof (intro conjI impI)
    assume "(\<exists>j<length ls. hit_line t (ls ! j)) \<and> hit_count c \<noteq> INT_MAX"
    with result show "\<exists>j<length ls. hit_line t (ls ! j) \<and> (\<forall>i<j. \<not> hit_line t (ls ! i)) \<and>
              check_for_hit c k t =
                Inr ((write_line c k j ((ls ! j)\<lparr>age := instr_count c\<rparr>))
                        \<lparr>hit_count := hit_count c + 1\<rparr>, 1)"
      by blast
  next
    assume none: "\<forall>j<length ls. \<not> hit_line t (ls ! j)"
    then have "no_hit_from c k t 0"
      by (simp add: none_iff)
    with result none show "check_for_hit c k t = Inr (c, 0)"
      by blast
  qed
qed

theorem check_for_hit_first_match_witness:
  "0 < length (set_arry (small_cache (0, 2, 0) 3 [(1, 0, 1), (1, 1, 2)])) \<and>
   length (lines (set_arry (small_cache (0, 2, 0) 3 [(1, 0, 1), (1, 1, 2)]) ! 0)) =
     nat (sint (associativity (small_cache (0, 2, 0) 3 [(1, 0, 1), (1, 1, 2)]))) \<and>
   hit_count (small_cache (0, 2, 0) 3 [(1, 0, 1), (1, 1, 2)]) \<noteq> INT_MAX \<and>
   check_for_hit (small_cache (0, 2, 0) 3 [(1, 0, 1), (1, 1, 2)]) 0 1 =
     Inr (small_cache (1, 2, 0) 3 [(1, 0, 1), (1, 1, 3)], 1) \<and>
   check_for_hit (small_cache (0, 2, 0) 3 [(1, 0, 1), (1, 1, 2)]) 0 5 =
     Inr (small_cache (0, 2, 0) 3 [(1, 0, 1), (1, 1, 2)], 0)"
proof -
  let ?before = "small_cache (0, 2, 0) 3 [(1, 0, 1), (1, 1, 2)]"
  let ?ls = "lines (set_arry ?before ! 0)"
  have ls: "?ls = [\<lparr>valid = 1, dirty = 0, tag = 0, age = 1, data = None\<rparr>,
                   \<lparr>valid = 1, dirty = 0, tag = 1, age = 2, data = None\<rparr>]"
    by (simp add: small_cache_def)
  have h1: "0 < length (set_arry ?before)"
    by (simp add: small_cache_def)
  have h3: "length ?ls = nat (sint (associativity ?before))"
    by (simp add: small_cache_def)
  have h4: "hit_count ?before \<noteq> INT_MAX"
    by (simp add: small_cache_def INT_MAX_def)
  note inst = check_for_hit_first_match [OF h1 refl h3]
  have "\<forall>j<length ?ls. \<not> hit_line 5 (?ls ! j)"
    by (auto simp add: ls hit_line_def less_Suc_eq)
  with inst [where t = 5] have none: "check_for_hit ?before 0 5 = Inr (?before, 0)"
    by blast
  have "hit_line 1 (?ls ! 1)"
    by (simp add: ls hit_line_def)
  then have "\<exists>j<length ?ls. hit_line 1 (?ls ! j)"
    by (intro exI [of _ 1]) (simp add: ls)
  with inst [where t = 1] h4 obtain j where j: "j < length ?ls" "hit_line 1 (?ls ! j)"
    and r: "check_for_hit ?before 0 1 =
              Inr ((write_line ?before 0 j ((?ls ! j)\<lparr>age := instr_count ?before\<rparr>))
                     \<lparr>hit_count := hit_count ?before + 1\<rparr>, 1)"
    by blast
  from j have "j = 1"
    by (cases j) (simp_all add: ls hit_line_def)
  with r have "check_for_hit ?before 0 1 = Inr (small_cache (1, 2, 0) 3 [(1, 0, 1), (1, 1, 3)], 1)"
    by (simp add: small_cache_def write_line_def)
  with h1 h3 h4 none show ?thesis
    by blast
qed

text \<open>
  Claim C1.  Let \<open>ls\<close> be the lines of set \<open>k\<close>, as many as the associativity says and at least
  one.  \<^verbatim>\<open>miss\<close> increments \<open>miss_count\<close>.  If some line of \<open>ls\<close> is invalid, it writes
  \<open>valid = 1\<close>, the new tag and \<open>age = instr_count\<close> to the first invalid line and leaves
  \<open>evict_count\<close> as it was.  If every line is valid, it increments \<open>evict_count\<close> and writes
  the new tag and \<open>age = instr_count\<close> to the line \<open>v\<close> of least age, the first one among
  equals.  Ages are compared as \<^verbatim>\<open>unsigned int\<close>.  The increments need the counters below the
  largest \<^verbatim>\<open>int\<close>.
\<close>

theorem miss_installs_or_evicts:
  assumes "k < length (set_arry c)" and "ls = lines (set_arry c ! k)"
    and "length ls = nat (sint (associativity c))" and "1 \<le> sint (associativity c)"
    and "miss_count c \<noteq> INT_MAX"
  shows "((\<exists>j<length ls. valid (ls ! j) = 0) \<longrightarrow>
           (\<exists>j<length ls. valid (ls ! j) = 0 \<and> (\<forall>i<j. valid (ls ! i) \<noteq> 0) \<and>
              miss c k t =
                Inr (write_line (c\<lparr>miss_count := miss_count c + 1\<rparr>) k j
                       ((ls ! j)\<lparr>tag := scast t, valid := 1, age := instr_count c\<rparr>)))) \<and>
         ((\<forall>j<length ls. valid (ls ! j) \<noteq> 0) \<and> evict_count c \<noteq> INT_MAX \<longrightarrow>
           (\<exists>v<length ls. (\<forall>i<length ls. age (ls ! v) \<le> age (ls ! i)) \<and>
              (\<forall>i<v. age (ls ! v) < age (ls ! i)) \<and>
              miss c k t =
                Inr (write_line
                       (c\<lparr>miss_count := miss_count c + 1, evict_count := evict_count c + 1\<rparr>) k v
                       ((ls ! v)\<lparr>tag := scast t, age := instr_count c\<rparr>))))"
proof -
  define c1 where "c1 = c\<lparr>miss_count := miss_count c + 1\<rparr>"
  have c1: "set_arry c1 = set_arry c" "associativity c1 = associativity c"
    "instr_count c1 = instr_count c" "evict_count c1 = evict_count c"
    by (simp_all add: c1_def)
  have rd: "read_line c1 k i = Inr l \<longleftrightarrow> i < length ls \<and> l = ls ! i" for i l
    using read_line_nth [of k c1 i l] assms(1,2) by (simp add: c1)
  have bound: "int i < sint (associativity c1) \<longleftrightarrow> i < length ls" for i
    using assms(3) unfolding c1 by linarith
  have pos: "0 < length ls"
    using assms(3,4) by linarith
  have ag: "age_at c1 k i = age (ls ! i)" for i
    by (simp add: age_at_def c1 assms(2))
  have all_iff: "all_valid_from c1 k 0 \<longleftrightarrow> (\<forall>j<length ls. valid (ls ! j) \<noteq> 0)"
    unfolding all_valid_from_def by (simp add: rd bound)
  have m: "miss c k t = miss_from c1 k t 0 0"
    using assms(5) by (simp add: miss_def incr_def c1_def)
  have k: "k < length (set_arry c1)"
    using assms(1) by (simp add: c1)
  have zero: "0 < length (lines (set_arry c1 ! k))"
    using pos by (simp add: c1 assms(2))
  have len: "nat (sint (associativity c1)) \<le> length (lines (set_arry c1 ! k))"
    using assms(2,3) by (simp add: c1)
  have result: "(\<exists>j<length ls. valid (ls ! j) = 0 \<and> (\<forall>i<j. valid (ls ! i) \<noteq> 0) \<and>
              miss c k t =
                Inr (write_line (c\<lparr>miss_count := miss_count c + 1\<rparr>) k j
                       ((ls ! j)\<lparr>tag := scast t, valid := 1, age := instr_count c\<rparr>))) \<or>
         ((\<forall>j<length ls. valid (ls ! j) \<noteq> 0) \<and>
           (\<exists>v<length ls. (\<forall>i<length ls. age (ls ! v) \<le> age (ls ! i)) \<and>
              (\<forall>i<v. age (ls ! v) < age (ls ! i)) \<and>
              miss c k t =
                Inr (write_line
                       (c\<lparr>miss_count := miss_count c + 1, evict_count := evict_count c + 1\<rparr>) k v
                       ((ls ! v)\<lparr>tag := scast t, age := instr_count c\<rparr>))))"
    if hyp: "evict_count c1 \<noteq> INT_MAX \<or> \<not> all_valid_from c1 k 0"
  proof -
    obtain c' where res: "miss_from c1 k t 0 0 = Inr c'"
      using miss_from_total [OF k len zero hyp] by auto
    from miss_from_Inr [OF res]
    consider (install) j l where "first_invalid_from c1 k 0 j l"
          "c' = write_line c1 k j (l\<lparr>tag := scast t, valid := 1, age := instr_count c1\<rparr>)"
      | (evict) v l where "all_valid_from c1 k 0" "oldest_from c1 k 0 0 v" "read_line c1 k v = Inr l"
          "c' = write_line (c1\<lparr>evict_count := evict_count c1 + 1\<rparr>) k v
                  (l\<lparr>tag := scast t, age := instr_count c1\<rparr>)"
      by blast
    then show ?thesis
    proof cases
      case install
      from install(1) have j: "j < length ls" "l = ls ! j" "valid (ls ! j) = 0"
        and first: "\<forall>i<j. valid (ls ! i) \<noteq> 0"
        unfolding first_invalid_from_def by (auto simp add: rd bound)
      have "miss c k t =
              Inr (write_line (c\<lparr>miss_count := miss_count c + 1\<rparr>) k j
                     ((ls ! j)\<lparr>tag := scast t, valid := 1, age := instr_count c\<rparr>))"
        using m res install(2) j(2) by (simp add: c1 flip: c1_def)
      with j first show ?thesis by blast
    next
      case evict
      from evict(1) have allv: "\<forall>j<length ls. valid (ls ! j) \<noteq> 0"
        by (simp add: all_iff)
      from evict(3) have v: "v < length ls" "l = ls ! v"
        by (simp_all add: rd)
      from evict(2) have least: "\<forall>i<length ls. age (ls ! v) \<le> age (ls ! i)"
        and first: "\<forall>i<v. age (ls ! v) < age (ls ! i)"
        unfolding oldest_from_def by (auto simp add: ag bound)
      have "miss c k t =
              Inr (write_line
                     (c\<lparr>miss_count := miss_count c + 1, evict_count := evict_count c + 1\<rparr>) k v
                     ((ls ! v)\<lparr>tag := scast t, age := instr_count c\<rparr>))"
        using m res evict(4) v(2) by (simp add: c1) (simp add: c1_def)
      with allv v(1) least first show ?thesis by blast
    qed
  qed
  show ?thesis
  proof (intro conjI impI)
    assume inv: "\<exists>j<length ls. valid (ls ! j) = 0"
    then have "\<not> all_valid_from c1 k 0"
      by (auto simp add: all_iff)
    with result inv show "\<exists>j<length ls. valid (ls ! j) = 0 \<and> (\<forall>i<j. valid (ls ! i) \<noteq> 0) \<and>
              miss c k t =
                Inr (write_line (c\<lparr>miss_count := miss_count c + 1\<rparr>) k j
                       ((ls ! j)\<lparr>tag := scast t, valid := 1, age := instr_count c\<rparr>))"
      by blast
  next
    assume a: "(\<forall>j<length ls. valid (ls ! j) \<noteq> 0) \<and> evict_count c \<noteq> INT_MAX"
    then have "evict_count c1 \<noteq> INT_MAX \<or> \<not> all_valid_from c1 k 0"
      by (simp add: c1)
    from result [OF this] a
    show "\<exists>v<length ls. (\<forall>i<length ls. age (ls ! v) \<le> age (ls ! i)) \<and>
              (\<forall>i<v. age (ls ! v) < age (ls ! i)) \<and>
              miss c k t =
                Inr (write_line
                       (c\<lparr>miss_count := miss_count c + 1, evict_count := evict_count c + 1\<rparr>) k v
                       ((ls ! v)\<lparr>tag := scast t, age := instr_count c\<rparr>))"
      by blast
  qed
qed

theorem miss_installs_or_evicts_witness:
  "0 < length (set_arry (small_cache (0, 1, 0) 2 [(1, 0, 1), (0, 0, 0)])) \<and>
   length (lines (set_arry (small_cache (0, 1, 0) 2 [(1, 0, 1), (0, 0, 0)]) ! 0)) =
     nat (sint (associativity (small_cache (0, 1, 0) 2 [(1, 0, 1), (0, 0, 0)]))) \<and>
   1 \<le> sint (associativity (small_cache (0, 1, 0) 2 [(1, 0, 1), (0, 0, 0)])) \<and>
   miss_count (small_cache (0, 1, 0) 2 [(1, 0, 1), (0, 0, 0)]) \<noteq> INT_MAX \<and>
   miss (small_cache (0, 1, 0) 2 [(1, 0, 1), (0, 0, 0)]) 0 1 =
     Inr (small_cache (0, 2, 0) 2 [(1, 0, 1), (1, 1, 2)]) \<and>
   0 < length (set_arry (small_cache (0, 2, 0) 3 [(1, 0, 1), (1, 1, 2)])) \<and>
   length (lines (set_arry (small_cache (0, 2, 0) 3 [(1, 0, 1), (1, 1, 2)]) ! 0)) =
     nat (sint (associativity (small_cache (0, 2, 0) 3 [(1, 0, 1), (1, 1, 2)]))) \<and>
   1 \<le> sint (associativity (small_cache (0, 2, 0) 3 [(1, 0, 1), (1, 1, 2)])) \<and>
   miss_count (small_cache (0, 2, 0) 3 [(1, 0, 1), (1, 1, 2)]) \<noteq> INT_MAX \<and>
   evict_count (small_cache (0, 2, 0) 3 [(1, 0, 1), (1, 1, 2)]) \<noteq> INT_MAX \<and>
   miss (small_cache (0, 2, 0) 3 [(1, 0, 1), (1, 1, 2)]) 0 2 =
     Inr (small_cache (0, 3, 1) 3 [(1, 2, 3), (1, 1, 2)])"
proof -
  let ?room = "small_cache (0, 1, 0) 2 [(1, 0, 1), (0, 0, 0)]"
  let ?ls = "lines (set_arry ?room ! 0)"
  have ls: "?ls = [\<lparr>valid = 1, dirty = 0, tag = 0, age = 1, data = None\<rparr>,
                   \<lparr>valid = 0, dirty = 0, tag = 0, age = 0, data = None\<rparr>]"
    by (simp add: small_cache_def)
  have h1: "0 < length (set_arry ?room)"
    by (simp add: small_cache_def)
  have h3: "length ?ls = nat (sint (associativity ?room))"
    by (simp add: small_cache_def)
  have h4: "1 \<le> sint (associativity ?room)"
    by (simp add: small_cache_def)
  have h5: "miss_count ?room \<noteq> INT_MAX"
    by (simp add: small_cache_def INT_MAX_def)
  note inst = miss_installs_or_evicts [OF h1 refl h3 h4 h5, where t = 1]
  have "valid (?ls ! 1) = 0"
    by (simp add: ls)
  then have "\<exists>j<length ?ls. valid (?ls ! j) = 0"
    by (intro exI [of _ 1]) (simp add: ls)
  with inst obtain j where j: "j < length ?ls" "valid (?ls ! j) = 0"
    and r: "miss ?room 0 1 =
              Inr (write_line (?room\<lparr>miss_count := miss_count ?room + 1\<rparr>) 0 j
                     ((?ls ! j)\<lparr>tag := scast (1 :: int32), valid := 1, age := instr_count ?room\<rparr>))"
    by blast
  from j have "j = 1"
    by (cases j) (simp_all add: ls)
  with r have installed: "miss ?room 0 1 = Inr (small_cache (0, 2, 0) 2 [(1, 0, 1), (1, 1, 2)])"
    by (simp add: small_cache_def write_line_def)
  let ?filled = "small_cache (0, 2, 0) 3 [(1, 0, 1), (1, 1, 2)]"
  let ?ms = "lines (set_arry ?filled ! 0)"
  have ms: "?ms = [\<lparr>valid = 1, dirty = 0, tag = 0, age = 1, data = None\<rparr>,
                   \<lparr>valid = 1, dirty = 0, tag = 1, age = 2, data = None\<rparr>]"
    by (simp add: small_cache_def)
  have g1: "0 < length (set_arry ?filled)"
    by (simp add: small_cache_def)
  have g3: "length ?ms = nat (sint (associativity ?filled))"
    by (simp add: small_cache_def)
  have g4: "1 \<le> sint (associativity ?filled)"
    by (simp add: small_cache_def)
  have g5: "miss_count ?filled \<noteq> INT_MAX" and g6: "evict_count ?filled \<noteq> INT_MAX"
    by (simp_all add: small_cache_def INT_MAX_def)
  note inst' = miss_installs_or_evicts [OF g1 refl g3 g4 g5, where t = 2]
  have "\<forall>j<length ?ms. valid (?ms ! j) \<noteq> 0"
    by (auto simp add: ms less_Suc_eq)
  with inst' g6 obtain v where v: "v < length ?ms" "\<forall>i<length ?ms. age (?ms ! v) \<le> age (?ms ! i)"
    and r': "miss ?filled 0 2 =
              Inr (write_line
                     (?filled\<lparr>miss_count := miss_count ?filled + 1,
                                evict_count := evict_count ?filled + 1\<rparr>) 0 v
                     ((?ms ! v)\<lparr>tag := scast (2 :: int32), age := instr_count ?filled\<rparr>))"
    by blast
  have "age (?ms ! v) \<le> age (?ms ! 0)"
    using v(2) [rule_format, of 0] by (simp add: ms)
  with v(1) have "v = 0"
    by (cases v) (simp_all add: ms word_le_nat_alt)
  with r' have evicted: "miss ?filled 0 2 = Inr (small_cache (0, 3, 1) 3 [(1, 2, 3), (1, 1, 2)])"
    by (simp add: small_cache_def write_line_def)
  from h1 h3 h4 h5 installed g1 g3 g4 g5 g6 evicted show ?thesis
    by blast
qed

subsection \<open>One call of \<^verbatim>\<open>lookup\<close>\<close>

lemma write_line_hit_count:
  "(write_line c k j l)\<lparr>hit_count := h\<rparr> = write_line (c\<lparr>hit_count := h\<rparr>) k j l"
  by (simp add: write_line_def)

lemma read_line_update [simp]:
  "read_line (c\<lparr>instr_count := n\<rparr>) = read_line c"
  "read_line (c\<lparr>miss_count := m\<rparr>) = read_line c"
  "read_line (c\<lparr>hit_count := h\<rparr>) = read_line c"
  "read_line (c\<lparr>evict_count := e\<rparr>) = read_line c"
  by (simp_all add: read_line_def fun_eq_iff)

lemma predicates_update [simp]:
  "no_hit_from (c\<lparr>instr_count := n\<rparr>) = no_hit_from c"
  "first_hit_from (c\<lparr>instr_count := n\<rparr>) = first_hit_from c"
  "all_valid_from (c\<lparr>instr_count := n\<rparr>) = all_valid_from c"
  "all_valid_from (c\<lparr>miss_count := m\<rparr>) = all_valid_from c"
  "first_invalid_from (c\<lparr>instr_count := n\<rparr>) = first_invalid_from c"
  "first_invalid_from (c\<lparr>miss_count := m\<rparr>) = first_invalid_from c"
  "oldest_from (c\<lparr>instr_count := n\<rparr>) = oldest_from c"
  "oldest_from (c\<lparr>miss_count := m\<rparr>) = oldest_from c"
  by (simp_all add: no_hit_from_def first_hit_from_def all_valid_from_def first_invalid_from_def
      oldest_from_def age_at_def fun_eq_iff)

lemma decomposition_update [simp]:
  "tag_for a (c\<lparr>instr_count := n\<rparr>) = tag_for a c"
  "set_for a (c\<lparr>instr_count := n\<rparr>) = set_for a c"
  by (simp_all add: tag_for_def set_for_def)

lemma miss_Inr:
  assumes "miss c k t = Inr c'"
  shows "miss_count c \<noteq> INT_MAX \<and>
         ((\<exists>j l. first_invalid_from c k 0 j l \<and>
             c' = write_line (c\<lparr>miss_count := miss_count c + 1\<rparr>) k j
                    (l\<lparr>tag := scast t, valid := 1, age := instr_count c\<rparr>)) \<or>
          (all_valid_from c k 0 \<and> evict_count c \<noteq> INT_MAX \<and>
           (\<exists>v l. oldest_from c k 0 0 v \<and> read_line c k v = Inr l \<and>
              c' = write_line (c\<lparr>miss_count := miss_count c + 1, evict_count := evict_count c + 1\<rparr>)
                     k v (l\<lparr>tag := scast t, age := instr_count c\<rparr>))))"
proof -
  from assms have m: "miss_count c \<noteq> INT_MAX"
    and res: "miss_from (c\<lparr>miss_count := miss_count c + 1\<rparr>) k t 0 0 = Inr c'"
    by (auto simp add: miss_def bind_e_Inr_iff incr_Inr_iff)
  from miss_from_Inr [OF res] m show ?thesis
    by simp
qed

lemma lookup_cases [consumes 1, case_names hit install evict]:
  assumes "lookup a c = Inr c'"
  obtains (hit) t ms j l where
      "tag_for a c = Inr t" "set_for a c = Inr ms" "0 \<le> sint ms"
      "instr_count c \<noteq> INT_MAX" "hit_count c \<noteq> INT_MAX"
      "first_hit_from c (nat (sint ms)) t 0 j l"
      "c' = write_line (c\<lparr>instr_count := instr_count c + 1, hit_count := hit_count c + 1\<rparr>)
              (nat (sint ms)) j (l\<lparr>age := instr_count c + 1\<rparr>)"
  | (install) t ms j l where
      "tag_for a c = Inr t" "set_for a c = Inr ms" "0 \<le> sint ms"
      "instr_count c \<noteq> INT_MAX" "miss_count c \<noteq> INT_MAX"
      "no_hit_from c (nat (sint ms)) t 0" "first_invalid_from c (nat (sint ms)) 0 j l"
      "c' = write_line (c\<lparr>instr_count := instr_count c + 1, miss_count := miss_count c + 1\<rparr>)
              (nat (sint ms)) j (l\<lparr>tag := scast t, valid := 1, age := instr_count c + 1\<rparr>)"
  | (evict) t ms v l where
      "tag_for a c = Inr t" "set_for a c = Inr ms" "0 \<le> sint ms"
      "instr_count c \<noteq> INT_MAX" "miss_count c \<noteq> INT_MAX" "evict_count c \<noteq> INT_MAX"
      "no_hit_from c (nat (sint ms)) t 0" "all_valid_from c (nat (sint ms)) 0"
      "oldest_from c (nat (sint ms)) 0 0 v" "read_line c (nat (sint ms)) v = Inr l"
      "c' = write_line (c\<lparr>instr_count := instr_count c + 1, miss_count := miss_count c + 1,
                          evict_count := evict_count c + 1\<rparr>)
              (nat (sint ms)) v (l\<lparr>tag := scast t, age := instr_count c + 1\<rparr>)"
proof -
  define c1 where "c1 = c\<lparr>instr_count := instr_count c + 1\<rparr>"
  from assms obtain t ms c2 r where i: "instr_count c \<noteq> INT_MAX"
    and t: "tag_for a c = Inr t" and ms: "set_for a c = Inr ms" and pos: "0 \<le> sint ms"
    and chk: "check_for_hit_from c1 (nat (sint ms)) t 0 = Inr (c2, r)"
    and fin: "(if r = 0 then miss c2 (nat (sint ms)) t else Inr c2) = Inr c'"
    by (auto simp add: lookup_def bind_e_Inr_iff incr_Inr_iff check_for_hit_def c1_def
        split: if_splits)
  from check_for_hit_from_Inr [OF chk]
  consider (none) "r = 0" "c2 = c1" "no_hit_from c1 (nat (sint ms)) t 0"
    | (found) j l where "r = 1" "hit_count c1 \<noteq> INT_MAX" "first_hit_from c1 (nat (sint ms)) t 0 j l"
        "c2 = (write_line c1 (nat (sint ms)) j (l\<lparr>age := instr_count c1\<rparr>))
                \<lparr>hit_count := hit_count c1 + 1\<rparr>"
    by blast
  then show thesis
  proof cases
    case found
    from fin found(1) have "c' = c2" by simp
    with found show ?thesis
      using i t ms pos by (intro hit [of t ms j l]) (simp_all add: c1_def write_line_hit_count)
  next
    case none
    with fin have "miss c1 (nat (sint ms)) t = Inr c'" by simp
    from miss_Inr [OF this]
    consider (inst) j l where "miss_count c1 \<noteq> INT_MAX" "first_invalid_from c1 (nat (sint ms)) 0 j l"
        "c' = write_line (c1\<lparr>miss_count := miss_count c1 + 1\<rparr>) (nat (sint ms)) j
                (l\<lparr>tag := scast t, valid := 1, age := instr_count c1\<rparr>)"
      | (ev) v l where "miss_count c1 \<noteq> INT_MAX" "all_valid_from c1 (nat (sint ms)) 0"
        "evict_count c1 \<noteq> INT_MAX" "oldest_from c1 (nat (sint ms)) 0 0 v"
        "read_line c1 (nat (sint ms)) v = Inr l"
        "c' = write_line (c1\<lparr>miss_count := miss_count c1 + 1, evict_count := evict_count c1 + 1\<rparr>)
                (nat (sint ms)) v (l\<lparr>tag := scast t, age := instr_count c1\<rparr>)"
      by blast
    then show ?thesis
    proof cases
      case inst
      with none(3) show ?thesis
        using i t ms pos by (intro install [of t ms j l]) (simp_all add: c1_def)
    next
      case ev
      with none(3) show ?thesis
        using i t ms pos by (intro evict [of t ms v l]) (simp_all add: c1_def)
    qed
  qed
qed

subsection \<open>What a call leaves alone\<close>

lemma write_line_fields [simp]:
  "set_bits (write_line c k j l) = set_bits c"
  "associativity (write_line c k j l) = associativity c"
  "block_bits (write_line c k j l) = block_bits c"
  "num_sets (write_line c k j l) = num_sets c"
  "num_blocks (write_line c k j l) = num_blocks c"
  "miss_count (write_line c k j l) = miss_count c"
  "hit_count (write_line c k j l) = hit_count c"
  "evict_count (write_line c k j l) = evict_count c"
  "flag_v_set (write_line c k j l) = flag_v_set c"
  "instr_count (write_line c k j l) = instr_count c"
  by (simp_all add: write_line_def)

lemma length_write_line [simp]:
  "length (set_arry (write_line c k j l)) = length (set_arry c)"
  by (simp add: write_line_def)

lemma length_lines_write_line [simp]:
  "length (lines (set_arry (write_line c k j l) ! k')) = length (lines (set_arry c ! k'))"
  by (cases "k < length (set_arry c)"; cases "k' = k")
    (simp_all add: write_line_def list_update_beyond)

lemma read_line_write_line:
  assumes "read_line c k j = Inr l"
  shows "read_line (write_line c k j l') k' j' =
           (if k' = k \<and> j' = j then Inr l' else read_line c k' j')"
proof -
  from assms have k: "k < length (set_arry c)" and j: "j < length (lines (set_arry c ! k))"
    by (simp_all add: read_line_Inr_iff)
  show ?thesis
  proof (cases "k' = k")
    case True
    with k j show ?thesis
      by (simp add: read_line_def write_line_def nth_list_update)
  next
    case False
    then show ?thesis
      by (simp add: read_line_def write_line_def)
  qed
qed

lemma read_line_counters [simp]:
  "read_line (c\<lparr>instr_count := n, hit_count := h\<rparr>) = read_line c"
  "read_line (c\<lparr>instr_count := n, miss_count := m\<rparr>) = read_line c"
  "read_line (c\<lparr>instr_count := n, miss_count := m, evict_count := e\<rparr>) = read_line c"
  by (simp_all add: read_line_def fun_eq_iff)

lemma shape_write_line [simp]: "shape (write_line c k j l) = shape c"
  by (rule nth_equalityI) (simp_all add: shape_def)

lemma shape_counters [simp]:
  "shape (c\<lparr>instr_count := n\<rparr>) = shape c"
  "shape (c\<lparr>hit_count := h\<rparr>) = shape c"
  "shape (c\<lparr>miss_count := m\<rparr>) = shape c"
  "shape (c\<lparr>evict_count := e\<rparr>) = shape c"
  by (simp_all add: shape_def)

text \<open>
  Claim C10.  A call of \<^verbatim>\<open>lookup\<close> that returns leaves the geometry and the sizes of the
  arrays as they were and writes to exactly one line \<open>j\<close> of the set \<open>set_for\<close> gives: reading
  any other line of any set gives what it gave before.  On a hit the line is the first valid
  line of the set with the tag \<open>tag_for\<close> gives, and only its age changes; on a miss it is the
  first invalid line of the set, which gets \<open>valid = 1\<close>, the tag and the age, or, when all
  lines are valid, the oldest line, which gets the tag and the age.  In each case \<open>dirty\<close> and
  \<open>data\<close> of the line stay.
\<close>

theorem lookup_frame:
  assumes "lookup a c = Inr c'"
  shows "same_geometry c c' \<and>
         (\<exists>ms t j l.
            set_for a c = Inr ms \<and> tag_for a c = Inr t \<and> 0 \<le> sint ms \<and>
            read_line c (nat (sint ms)) j = Inr l \<and>
            (\<forall>k' j'. (k', j') \<noteq> (nat (sint ms), j) \<longrightarrow> read_line c' k' j' = read_line c k' j') \<and>
            ((first_hit_from c (nat (sint ms)) t 0 j l \<and>
              read_line c' (nat (sint ms)) j = Inr (l\<lparr>age := instr_count c'\<rparr>) \<and>
              hit_count c' = hit_count c + 1 \<and> miss_count c' = miss_count c \<and>
              evict_count c' = evict_count c) \<or>
             (no_hit_from c (nat (sint ms)) t 0 \<and> first_invalid_from c (nat (sint ms)) 0 j l \<and>
              read_line c' (nat (sint ms)) j
                = Inr (l\<lparr>tag := scast t, valid := 1, age := instr_count c'\<rparr>) \<and>
              hit_count c' = hit_count c \<and> miss_count c' = miss_count c + 1 \<and>
              evict_count c' = evict_count c) \<or>
             (no_hit_from c (nat (sint ms)) t 0 \<and> all_valid_from c (nat (sint ms)) 0 \<and>
              oldest_from c (nat (sint ms)) 0 0 j \<and>
              read_line c' (nat (sint ms)) j = Inr (l\<lparr>tag := scast t, age := instr_count c'\<rparr>) \<and>
              hit_count c' = hit_count c \<and> miss_count c' = miss_count c + 1 \<and>
              evict_count c' = evict_count c + 1)))"
  using assms
proof (cases rule: lookup_cases)
  case (hit t ms j l)
  from hit(6) have rl: "read_line c (nat (sint ms)) j = Inr l"
    by (simp add: first_hit_from_def)
  have "same_geometry c c'"
    by (simp add: same_geometry_def hit(7))
  moreover have "\<forall>k' j'. (k', j') \<noteq> (nat (sint ms), j) \<longrightarrow> read_line c' k' j' = read_line c k' j'"
    by (auto simp add: hit(7) read_line_write_line [of _ _ _ l] rl)
  moreover have "read_line c' (nat (sint ms)) j = Inr (l\<lparr>age := instr_count c'\<rparr>)"
    by (simp add: hit(7) read_line_write_line [of _ _ _ l] rl)
  moreover have "hit_count c' = hit_count c + 1" "miss_count c' = miss_count c"
    "evict_count c' = evict_count c"
    by (simp_all add: hit(7))
  ultimately show ?thesis
    using rl hit(1,2,3,6) by blast
next
  case (install t ms j l)
  from install(7) have rl: "read_line c (nat (sint ms)) j = Inr l"
    by (simp add: first_invalid_from_def)
  have "same_geometry c c'"
    by (simp add: same_geometry_def install(8))
  moreover have "\<forall>k' j'. (k', j') \<noteq> (nat (sint ms), j) \<longrightarrow> read_line c' k' j' = read_line c k' j'"
    by (auto simp add: install(8) read_line_write_line [of _ _ _ l] rl)
  moreover have "read_line c' (nat (sint ms)) j
      = Inr (l\<lparr>tag := scast t, valid := 1, age := instr_count c'\<rparr>)"
    by (simp add: install(8) read_line_write_line [of _ _ _ l] rl)
  moreover have "hit_count c' = hit_count c" "miss_count c' = miss_count c + 1"
    "evict_count c' = evict_count c"
    by (simp_all add: install(8))
  ultimately show ?thesis
    using rl install(1,2,3,6,7) by blast
next
  case (evict t ms v l)
  note rl = evict(10)
  have "same_geometry c c'"
    by (simp add: same_geometry_def evict(11))
  moreover have "\<forall>k' j'. (k', j') \<noteq> (nat (sint ms), v) \<longrightarrow> read_line c' k' j' = read_line c k' j'"
    by (auto simp add: evict(11) read_line_write_line [of _ _ _ l] rl)
  moreover have "read_line c' (nat (sint ms)) v = Inr (l\<lparr>tag := scast t, age := instr_count c'\<rparr>)"
    by (simp add: evict(11) read_line_write_line [of _ _ _ l] rl)
  moreover have "hit_count c' = hit_count c" "miss_count c' = miss_count c + 1"
    "evict_count c' = evict_count c + 1"
    by (simp_all add: evict(11))
  ultimately show ?thesis
    using rl evict(1,2,3,7,8,9) by blast
qed

theorem lookup_frame_witness:
  "lookup 2 (small_cache (0, 2, 0) 2 [(1, 0, 1), (1, 1, 2)])
     = Inr (small_cache (0, 3, 1) 3 [(1, 2, 3), (1, 1, 2)]) \<and>
   same_geometry (small_cache (0, 2, 0) 2 [(1, 0, 1), (1, 1, 2)])
     (small_cache (0, 3, 1) 3 [(1, 2, 3), (1, 1, 2)]) \<and>
   read_line (small_cache (0, 3, 1) 3 [(1, 2, 3), (1, 1, 2)]) 0 1
     = read_line (small_cache (0, 2, 0) 2 [(1, 0, 1), (1, 1, 2)]) 0 1 \<and>
   read_line (small_cache (0, 3, 1) 3 [(1, 2, 3), (1, 1, 2)]) 0 0
     = Inr \<lparr>valid = 1, dirty = 0, tag = 2, age = 3, data = None\<rparr>"
proof -
  have l: "lookup 2 (small_cache (0, 2, 0) 2 [(1, 0, 1), (1, 1, 2)])
     = Inr (small_cache (0, 3, 1) 3 [(1, 2, 3), (1, 1, 2)])"
    by code_simp
  from lookup_frame [OF l]
  have "same_geometry (small_cache (0, 2, 0) 2 [(1, 0, 1), (1, 1, 2)])
     (small_cache (0, 3, 1) 3 [(1, 2, 3), (1, 1, 2)])"
    by blast
  moreover have "read_line (small_cache (0, 3, 1) 3 [(1, 2, 3), (1, 1, 2)]) 0 1
     = read_line (small_cache (0, 2, 0) 2 [(1, 0, 1), (1, 1, 2)]) 0 1"
    by code_simp
  moreover have "read_line (small_cache (0, 3, 1) 3 [(1, 2, 3), (1, 1, 2)]) 0 0
     = Inr \<lparr>valid = 1, dirty = 0, tag = 2, age = 3, data = None\<rparr>"
    by code_simp
  ultimately show ?thesis
    using l by blast
qed

lemma lookup_writes_one_line:
  assumes "lookup a c = Inr c'"
  shows "\<exists>k j l l'. read_line c k j = Inr l \<and>
           (\<forall>k' j'. read_line c' k' j' = (if k' = k \<and> j' = j then Inr l' else read_line c k' j'))"
proof -
  have *: "\<exists>k j l l'. read_line c k j = Inr l \<and>
           (\<forall>k' j'. read_line c' k' j' = (if k' = k \<and> j' = j then Inr l' else read_line c k' j'))"
    if "read_line c k j = Inr l" "read_line d = read_line c" "c' = write_line d k j l'"
    for d k j l l'
  proof -
    from that(1,2) have "read_line d k j = Inr l" by simp
    from read_line_write_line [OF this, of l'] that(2,3)
    have "\<forall>k' j'. read_line c' k' j' = (if k' = k \<and> j' = j then Inr l' else read_line c k' j')"
      by simp
    with that(1) show ?thesis by blast
  qed
  from assms show ?thesis
  proof (cases rule: lookup_cases)
    case (hit t ms j l)
    from hit(6) have rl: "read_line c (nat (sint ms)) j = Inr l"
      by (simp add: first_hit_from_def)
    show ?thesis
      by (rule * [OF rl _ hit(7)]) simp
  next
    case (install t ms j l)
    from install(7) have rl: "read_line c (nat (sint ms)) j = Inr l"
      by (simp add: first_invalid_from_def)
    show ?thesis
      by (rule * [OF rl _ install(8)]) simp
  next
    case (evict t ms v l)
    show ?thesis
      by (rule * [OF evict(10) _ evict(11)]) simp
  qed
qed

lemma lookup_same_geometry:
  assumes "lookup a c = Inr c'"
  shows "same_geometry c c'"
  using assms by (cases rule: lookup_cases) (simp_all add: same_geometry_def)

subsection \<open>Sequences of calls\<close>

lemma read_file_invariant:
  assumes "read_file c trace = Inr c'" and "P c"
    and step: "\<And>a c1 c2. P c1 \<Longrightarrow> lookup a c1 = Inr c2 \<Longrightarrow> P c2"
  shows "P c'"
  using assms(1,2)
proof (induction c trace rule: read_file.induct)
  case (1 cache)
  then show ?case by simp
next
  case (2 cache rest)
  then show ?case by simp
next
  case (3 cache operation int_address rest)
  from "3.prems"(1) obtain c1 where c1: "call_lookup int_address operation cache = Inr c1"
    and rest: "read_file c1 rest = Inr c'"
    by (auto simp add: bind_e_Inr_iff)
  from c1 obtain c0 where c0: "lookup int_address cache = Inr c0"
    and snd: "(if operation = CHR ''M'' then lookup int_address c0 else Inr c0) = Inr c1"
    by (auto simp add: call_lookup_def bind_e_Inr_iff)
  from step [OF "3.prems"(2) c0] have "P c0" .
  with snd step have "P c1"
    by (cases "operation = CHR ''M''") auto
  with "3.IH" [OF rest] show ?case .
qed

lemma lookup_valid_stays:
  assumes "lookup a c = Inr c'" and "read_line c k j = Inr l" and "valid l \<noteq> 0"
  shows "\<exists>l'. read_line c' k j = Inr l' \<and> valid l' \<noteq> 0"
  using assms(1)
proof (cases rule: lookup_cases)
  case (hit t ms j0 l0)
  from hit(6) have rl: "read_line c (nat (sint ms)) j0 = Inr l0"
    by (simp add: first_hit_from_def)
  show ?thesis
    using assms(2,3) rl by (auto simp add: hit(7) read_line_write_line [of _ _ _ l0])
next
  case (install t ms j0 l0)
  from install(7) have rl: "read_line c (nat (sint ms)) j0 = Inr l0"
    by (simp add: first_invalid_from_def)
  show ?thesis
    using assms(2,3) rl by (auto simp add: install(8) read_line_write_line [of _ _ _ l0])
next
  case (evict t ms v l0)
  note rl = evict(10)
  show ?thesis
    using assms(2,3) rl by (auto simp add: evict(11) read_line_write_line [of _ _ _ l0])
qed

text \<open>
  Claim C9.  Whatever the trace, a line that is valid before \<^verbatim>\<open>read_file\<close> runs the calls of
  \<^verbatim>\<open>lookup\<close> is valid after them: no call resets \<open>valid\<close>.  This holds from every cache, a
  new one included.
\<close>

theorem valid_stays:
  assumes "read_file c trace = Inr c'" and "read_line c k j = Inr l" and "valid l \<noteq> 0"
  shows "\<exists>l'. read_line c' k j = Inr l' \<and> valid l' \<noteq> 0"
proof (rule read_file_invariant [OF assms(1)])
  show "\<exists>l'. read_line c k j = Inr l' \<and> valid l' \<noteq> 0"
    using assms(2,3) by simp
next
  fix a c1 c2
  assume "\<exists>l'. read_line c1 k j = Inr l' \<and> valid l' \<noteq> 0" and "lookup a c1 = Inr c2"
  then show "\<exists>l'. read_line c2 k j = Inr l' \<and> valid l' \<noteq> 0"
    using lookup_valid_stays by blast
qed

theorem valid_stays_witness:
  "read_file (small_cache (0, 1, 0) 1 [(1, 0, 1), (0, 0, 0)]) [Access CHR ''L'' 1, Access CHR ''L'' 2]
     = Inr (small_cache (0, 3, 1) 3 [(1, 2, 3), (1, 1, 2)]) \<and>
   read_line (small_cache (0, 1, 0) 1 [(1, 0, 1), (0, 0, 0)]) 0 0
     = Inr \<lparr>valid = 1, dirty = 0, tag = 0, age = 1, data = None\<rparr> \<and>
   valid \<lparr>valid = 1, dirty = 0, tag = 0, age = 1, data = None\<rparr> \<noteq> 0 \<and>
   (\<exists>l'. read_line (small_cache (0, 3, 1) 3 [(1, 2, 3), (1, 1, 2)]) 0 0 = Inr l' \<and> valid l' \<noteq> 0)"
proof -
  have rf: "read_file (small_cache (0, 1, 0) 1 [(1, 0, 1), (0, 0, 0)])
      [Access CHR ''L'' 1, Access CHR ''L'' 2]
     = Inr (small_cache (0, 3, 1) 3 [(1, 2, 3), (1, 1, 2)])"
    by code_simp
  have rl: "read_line (small_cache (0, 1, 0) 1 [(1, 0, 1), (0, 0, 0)]) 0 0
     = Inr \<lparr>valid = 1, dirty = 0, tag = 0, age = 1, data = None\<rparr>"
    by code_simp
  have v: "valid \<lparr>valid = 1, dirty = 0, tag = 0, age = 1, data = None\<rparr> \<noteq> 0"
    by simp
  from valid_stays [OF rf rl v] rf rl v show ?thesis
    by blast
qed

lemma lookup_counters:
  assumes "lookup a c = Inr c'"
  shows "sint (instr_count c') = sint (instr_count c) + 1 \<and>
         ((sint (hit_count c') = sint (hit_count c) + 1 \<and> miss_count c' = miss_count c \<and>
           evict_count c' = evict_count c) \<or>
          (hit_count c' = hit_count c \<and> sint (miss_count c') = sint (miss_count c) + 1 \<and>
           evict_count c' = evict_count c \<and> \<not> full c) \<or>
          (hit_count c' = hit_count c \<and> sint (miss_count c') = sint (miss_count c) + 1 \<and>
           sint (evict_count c') = sint (evict_count c) + 1))"
  using assms
proof (cases rule: lookup_cases)
  case (hit t ms j l)
  then show ?thesis by (simp add: sint_incr)
next
  case (install t ms j l)
  from install(7) have "read_line c (nat (sint ms)) j = Inr l" "valid l = 0"
    by (simp_all add: first_invalid_from_def)
  then have "\<not> full c"
    unfolding full_def by blast
  with install show ?thesis by (simp add: sint_incr)
next
  case (evict t ms v l)
  then show ?thesis by (simp add: sint_incr)
qed

lemma lookup_full:
  assumes "lookup a c = Inr c'" and "full c"
  shows "full c'"
proof -
  from lookup_writes_one_line [OF assms(1)] obtain k j l l0' where rl: "read_line c k j = Inr l"
    and other: "\<And>k' j'. read_line c' k' j' = (if k' = k \<and> j' = j then Inr l0' else read_line c k' j')"
    by blast
  show ?thesis
    unfolding full_def
  proof (intro allI impI)
    fix k' j' l' assume r': "read_line c' k' j' = Inr l'"
    have "\<exists>l0. read_line c k' j' = Inr l0"
    proof (cases "k' = k \<and> j' = j")
      case True
      with rl show ?thesis by simp
    next
      case False
      with other [of k' j'] r' have "read_line c k' j' = Inr l'" by simp
      then show ?thesis ..
    qed
    then obtain l0 where l0: "read_line c k' j' = Inr l0" ..
    with assms(2) have "valid l0 \<noteq> 0"
      unfolding full_def by blast
    from lookup_valid_stays [OF assms(1) l0 this] r' show "valid l' \<noteq> 0"
      by simp
  qed
qed

subsection \<open>Calls that return\<close>

lemma well_formed_set_for:
  assumes "well_formed c"
  shows "\<exists>ms. set_for a c = Inr ms \<and> 0 \<le> sint ms \<and> nat (sint ms) < length (set_arry c)"
proof -
  define s b where "s = nat (sint (set_bits c))" and "b = nat (sint (block_bits c))"
  from assms have sb: "sint (set_bits c) = int s" "sint (block_bits c) = int b" "s + b \<le> 31"
    and ns: "num_sets c = 2 ^ s - 1"
    and sh: "shape c = replicate (2 ^ s) (nat (sint (associativity c)))"
    unfolding well_formed_def s_def b_def by (simp_all, linarith)
  have "length (shape c) = length (set_arry c)"
    by (simp add: shape_def)
  with sh have len: "length (set_arry c) = 2 ^ s"
    by simp
  have eq: "set_for a c = Inr (signed_drop_bit b a AND mask s)"
    using set_for_eq [OF sb ns] by (simp add: mask_eq_exp_minus_1)
  have s31: "s \<le> 31" using sb(3) by simp
  define ms where "ms = signed_drop_bit b a AND mask s"
  have ms: "0 \<le> sint ms" "sint ms < int (2 ^ s)"
    using sint_and_mask [OF s31, of "signed_drop_bit b a"] by (simp_all add: ms_def)
  then have "nat (sint ms) < 2 ^ s"
    by linarith
  with eq len ms(1) show ?thesis
    unfolding ms_def by simp
qed

lemma well_formed_tag_for:
  assumes "well_formed c"
  shows "\<exists>t. tag_for a c = Inr t"
proof -
  define s b where "s = nat (sint (set_bits c))" and "b = nat (sint (block_bits c))"
  from assms have sb: "sint (set_bits c) = int s" "sint (block_bits c) = int b" "s + b \<le> 31"
    and ns: "num_sets c = 2 ^ s - 1"
    unfolding well_formed_def s_def b_def by (simp_all, linarith)
  from tag_for_eq [OF sb ns] show ?thesis by blast
qed

lemma well_formed_lines:
  assumes "well_formed c" and "k < length (set_arry c)"
  shows "length (lines (set_arry c ! k)) = nat (sint (associativity c))"
proof -
  from assms(1) have sh: "shape c = replicate (2 ^ nat (sint (set_bits c))) (nat (sint (associativity c)))"
    by (simp add: well_formed_def)
  have "length (shape c) = length (set_arry c)"
    by (simp add: shape_def)
  with sh assms(2) have k: "k < 2 ^ nat (sint (set_bits c))"
    by simp
  have "length (lines (set_arry c ! k)) = shape c ! k"
    using assms(2) by (simp add: shape_def)
  also have "\<dots> = nat (sint (associativity c))"
    unfolding sh using k by (rule nth_replicate)
  finally show ?thesis .
qed

lemma lookup_total:
  assumes "well_formed c" and "counters_ok c" and "sint (instr_count c) < 2 ^ 31 - 1"
  shows "\<exists>c'. lookup a c = Inr c'"
proof -
  from assms(2,3) have i: "instr_count c \<noteq> INT_MAX" and h: "hit_count c \<noteq> INT_MAX"
    and m: "miss_count c \<noteq> INT_MAX" and e: "evict_count c \<noteq> INT_MAX"
    unfolding counters_ok_def by (auto intro!: not_INT_MAX)
  obtain t where t: "tag_for a c = Inr t"
    using well_formed_tag_for [OF assms(1)] by blast
  obtain ms where ms: "set_for a c = Inr ms" and pos: "0 \<le> sint ms"
    and k: "nat (sint ms) < length (set_arry c)"
    using well_formed_set_for [OF assms(1)] by blast
  define c1 where "c1 = c\<lparr>instr_count := instr_count c + 1\<rparr>"
  have len: "length (lines (set_arry c ! nat (sint ms))) = nat (sint (associativity c))"
    by (rule well_formed_lines [OF assms(1) k])
  have pos_len: "0 < length (lines (set_arry c ! nat (sint ms)))"
    using assms(1) len unfolding well_formed_def by linarith
  obtain c2 r where chk: "check_for_hit_from c1 (nat (sint ms)) t 0 = Inr (c2, r)"
    using check_for_hit_from_total [where k = "nat (sint ms)" and c = c1 and t = t and n = 0] k len h by (auto simp add: c1_def)
  have "\<exists>c'. (if r = 0 then miss c2 (nat (sint ms)) t else Inr c2) = Inr c'"
  proof (cases "r = 0")
    case True
    with check_for_hit_from_Inr [OF chk] have c2: "c2 = c1" by auto
    obtain c' where "miss_from (c1\<lparr>miss_count := miss_count c1 + 1\<rparr>) (nat (sint ms)) t 0 0 = Inr c'"
      using miss_from_total [where k = "nat (sint ms)" and c = "c1\<lparr>miss_count := miss_count c1 + 1\<rparr>"
          and oldest = 0 and t = t and n = 0]
        k len pos_len e by (auto simp add: c1_def)
    with True m show ?thesis
      by (simp add: miss_def incr_def c2 c1_def)
  next
    case False
    then show ?thesis by simp
  qed
  with i t ms pos k chk show ?thesis
    by (simp add: lookup_def incr_def check_for_hit_def flip: c1_def)
qed

lemma lookup_well_formed:
  assumes "lookup a c = Inr c'" and "well_formed c"
  shows "well_formed c'"
  using lookup_same_geometry [OF assms(1)] assms(2)
  by (simp add: same_geometry_def well_formed_def)

lemma lookup_counters_ok:
  assumes "lookup a c = Inr c'" and "counters_ok c"
  shows "counters_ok c'"
  using lookup_counters [OF assms(1)] assms(2)
  unfolding counters_ok_def by auto

lemma make_cache_well_formed:
  assumes "make_cache s_bits assoc b_bits v_set = Inr c0"
    and "0 \<le> sint s_bits" and "0 \<le> sint b_bits" and "sint s_bits + sint b_bits \<le> 31"
    and "1 \<le> sint assoc"
  shows "well_formed c0"
proof -
  define s where "s = nat (sint s_bits)"
  have s: "sint s_bits = int s" "s \<le> 31"
    using assms(2,3,4) by (simp_all add: s_def)
  have ns: "pow2_minus_1 s_bits = Inr (2 ^ s - 1)"
    by (rule pow2_minus_1_nat [OF s])
  have sn: "sint (2 ^ s - 1 :: int32) = 2 ^ s - 1"
    by (rule sint_pow2_minus_1 [OF s(2)])
  have len: "nat (2 ^ s) = (2::nat) ^ s"
    by (simp add: nat_power_eq)
  from assms(1) obtain n_blocks where
    c0: "c0 = \<lparr>set_bits = s_bits, associativity = assoc, block_bits = b_bits,
            num_sets = 2 ^ s - 1, num_blocks = n_blocks,
            miss_count = 0, hit_count = 0, evict_count = 0,
            flag_v_set = v_set, instr_count = 0,
            set_arry = map (\<lambda>set_n. make_cache_set assoc) [0 .. sint (2 ^ s - 1 :: int32)]\<rparr>"
    by (auto simp add: make_cache_def ns bind_e_Inr_iff)
  have "shape c0 = replicate (2 ^ s) (nat (sint assoc))"
    by (simp add: c0 shape_def sn len make_cache_set_def map_replicate_const)
  then show ?thesis
    using assms(2-5) by (simp add: well_formed_def c0 s_def)
qed

lemma make_cache_counters_ok:
  assumes "make_cache s_bits assoc b_bits v_set = Inr c0"
  shows "counters_ok c0"
  using make_cache_new [OF assms] by (simp add: counters_ok_def)

subsection \<open>Counting\<close>

lemma call_lookup_counts:
  assumes "call_lookup a operation c = Inr c'"
  shows "sint (instr_count c') = sint (instr_count c) + (if operation = CHR ''M'' then 2 else 1) \<and>
         sint (hit_count c') + sint (miss_count c') =
           sint (hit_count c) + sint (miss_count c) + (if operation = CHR ''M'' then 2 else 1)"
proof -
  from assms obtain c1 where c1: "lookup a c = Inr c1"
    and snd: "(if operation = CHR ''M'' then lookup a c1 else Inr c1) = Inr c'"
    by (auto simp add: call_lookup_def bind_e_Inr_iff)
  have 1: "sint (instr_count c1) = sint (instr_count c) + 1"
    "sint (hit_count c1) + sint (miss_count c1) = sint (hit_count c) + sint (miss_count c) + 1"
    using lookup_counters [OF c1] by auto
  show ?thesis
  proof (cases "operation = CHR ''M''")
    case True
    with snd have c2: "lookup a c1 = Inr c'" by simp
    have "sint (instr_count c') = sint (instr_count c1) + 1"
      "sint (hit_count c') + sint (miss_count c') = sint (hit_count c1) + sint (miss_count c1) + 1"
      using lookup_counters [OF c2] by auto
    with 1 True show ?thesis
      by simp
  next
    case False
    with snd 1 show ?thesis
      by simp
  qed
qed

lemma read_file_counts:
  assumes "read_file c trace = Inr c'"
  shows "sint (instr_count c') = sint (instr_count c) + int (sub_references trace) \<and>
         sint (hit_count c') + sint (miss_count c') =
           sint (hit_count c) + sint (miss_count c) + int (sub_references trace)"
  using assms
proof (induction c trace rule: read_file.induct)
  case (1 cache)
  then show ?case by simp
next
  case (2 cache rest)
  then show ?case by simp
next
  case (3 cache operation int_address rest)
  from "3.prems" obtain c1 where c1: "call_lookup int_address operation cache = Inr c1"
    and rest: "read_file c1 rest = Inr c'"
    by (auto simp add: bind_e_Inr_iff)
  from "3.IH" [OF rest] call_lookup_counts [OF c1] show ?case
    by simp
qed

lemma call_lookup_total:
  assumes "well_formed c" and "counters_ok c"
    and "sint (instr_count c) + (if operation = CHR ''M'' then 2 else 1) < 2 ^ 31"
  shows "\<exists>c'. call_lookup a operation c = Inr c' \<and> well_formed c' \<and> counters_ok c'"
proof -
  from assms(3) have "sint (instr_count c) < 2 ^ 31 - 1"
    by (simp split: if_splits)
  from lookup_total [OF assms(1,2) this] obtain c1 where c1: "lookup a c = Inr c1" ..
  have wf1: "well_formed c1" "counters_ok c1"
    using lookup_well_formed [OF c1 assms(1)] lookup_counters_ok [OF c1 assms(2)] by simp_all
  show ?thesis
  proof (cases "operation = CHR ''M''")
    case True
    with assms(3) lookup_counters [OF c1] have "sint (instr_count c1) < 2 ^ 31 - 1"
      by simp
    from lookup_total [OF wf1 this] obtain c2 where c2: "lookup a c1 = Inr c2" ..
    with True c1 lookup_well_formed [OF c2 wf1(1)] lookup_counters_ok [OF c2 wf1(2)]
    show ?thesis
      by (simp add: call_lookup_def)
  next
    case False
    with c1 wf1 show ?thesis
      by (simp add: call_lookup_def)
  qed
qed

lemma read_file_total:
  assumes "well_formed c" and "counters_ok c"
    and "sint (instr_count c) + int (sub_references trace) < 2 ^ 31"
  shows "\<exists>c'. read_file c trace = Inr c'"
  using assms
proof (induction c trace rule: read_file.induct)
  case (1 cache)
  then show ?case by simp
next
  case (2 cache rest)
  then show ?case by simp
next
  case (3 cache operation int_address rest)
  have "(0::int) \<le> int (sub_references rest)" by simp
  with "3.prems"(3)
  have "sint (instr_count cache) + (if operation = CHR ''M'' then 2 else 1) < 2 ^ 31"
    by (simp split: if_splits)
  from call_lookup_total [OF "3.prems"(1,2) this, of int_address]
  obtain c1 where c1: "call_lookup int_address operation cache = Inr c1"
    and wf1: "well_formed c1" "counters_ok c1"
    by blast
  from call_lookup_counts [OF c1] "3.prems"(3)
  have "sint (instr_count c1) + int (sub_references rest) < 2 ^ 31"
    by (simp split: if_splits)
  from "3.IH" [OF wf1 this] c1 show ?case
    by simp
qed

text \<open>
  Claim C5.  From a new cache, whatever the trace, a run of \<^verbatim>\<open>read_file\<close> that returns leaves
  \<open>hit_count + miss_count\<close> equal to the number of calls of \<^verbatim>\<open>lookup\<close> it made, two for an
  access \<open>M\<close> and one for every other access, and \<open>instr_count\<close> equal to the same number.  The
  run does return when the geometry has \<open>0 \<le> set_bits\<close>, \<open>0 \<le> block_bits\<close>,
  \<open>set_bits + block_bits \<le> 31\<close>, an associativity of at least one, and the trace makes fewer
  than \<open>2 ^ 31\<close> calls.  Every call of \<^verbatim>\<open>lookup\<close> that returns has added one to \<open>instr_count\<close>.
\<close>

theorem hits_and_misses_count_references:
  assumes "make_cache s_bits assoc b_bits v_set = Inr c0"
  shows "(\<forall>c'. read_file c0 trace = Inr c' \<longrightarrow>
            sint (hit_count c') + sint (miss_count c') = int (sub_references trace) \<and>
            sint (instr_count c') = int (sub_references trace)) \<and>
         (0 \<le> sint s_bits \<and> 0 \<le> sint b_bits \<and> sint s_bits + sint b_bits \<le> 31 \<and>
          1 \<le> sint assoc \<and> int (sub_references trace) < 2 ^ 31 \<longrightarrow>
            (\<exists>c'. read_file c0 trace = Inr c')) \<and>
         (\<forall>a c c'. lookup a c = Inr c' \<longrightarrow> sint (instr_count c') = sint (instr_count c) + 1)"
proof (intro conjI allI impI)
  fix c' assume "read_file c0 trace = Inr c'"
  from read_file_counts [OF this] make_cache_new(1,2,4) [OF assms]
  show "sint (hit_count c') + sint (miss_count c') = int (sub_references trace)"
    and "sint (instr_count c') = int (sub_references trace)"
    by simp_all
next
  assume g: "0 \<le> sint s_bits \<and> 0 \<le> sint b_bits \<and> sint s_bits + sint b_bits \<le> 31 \<and>
          1 \<le> sint assoc \<and> int (sub_references trace) < 2 ^ 31"
  then have "well_formed c0"
    using make_cache_well_formed [OF assms] by simp
  moreover have "counters_ok c0"
    by (rule make_cache_counters_ok [OF assms])
  moreover have "sint (instr_count c0) + int (sub_references trace) < 2 ^ 31"
    using g make_cache_new(4) [OF assms] by simp
  ultimately show "\<exists>c'. read_file c0 trace = Inr c'"
    by (rule read_file_total)
next
  fix a c c' assume "lookup a c = Inr c'"
  from lookup_counters [OF this] show "sint (instr_count c') = sint (instr_count c) + 1"
    by simp
qed

theorem hits_and_misses_count_references_witness:
  "make_cache 0 2 0 0 = Inr (small_cache (0, 0, 0) 0 [(0, 0, 0), (0, 0, 0)]) \<and>
   read_file (small_cache (0, 0, 0) 0 [(0, 0, 0), (0, 0, 0)])
     [Access CHR ''L'' 0, Access CHR ''M'' 1, Skipped, Access CHR ''S'' 2]
     = Inr (small_cache (1, 3, 1) 4 [(1, 2, 4), (1, 1, 3)]) \<and>
   sub_references [Access CHR ''L'' 0, Access CHR ''M'' 1, Skipped, Access CHR ''S'' 2] = 4 \<and>
   sint (hit_count (small_cache (1, 3, 1) 4 [(1, 2, 4), (1, 1, 3)])) +
     sint (miss_count (small_cache (1, 3, 1) 4 [(1, 2, 4), (1, 1, 3)])) =
     int (sub_references [Access CHR ''L'' 0, Access CHR ''M'' 1, Skipped, Access CHR ''S'' 2]) \<and>
   sint (instr_count (small_cache (1, 3, 1) 4 [(1, 2, 4), (1, 1, 3)])) =
     int (sub_references [Access CHR ''L'' 0, Access CHR ''M'' 1, Skipped, Access CHR ''S'' 2])"
proof -
  have mk: "make_cache 0 2 0 0 = Inr (small_cache (0, 0, 0) 0 [(0, 0, 0), (0, 0, 0)])"
    by code_simp
  have rf: "read_file (small_cache (0, 0, 0) 0 [(0, 0, 0), (0, 0, 0)])
     [Access CHR ''L'' 0, Access CHR ''M'' 1, Skipped, Access CHR ''S'' 2]
     = Inr (small_cache (1, 3, 1) 4 [(1, 2, 4), (1, 1, 3)])"
    by code_simp
  have n: "sub_references [Access CHR ''L'' 0, Access CHR ''M'' 1, Skipped, Access CHR ''S'' 2] = 4"
    by simp
  from hits_and_misses_count_references [OF mk] rf
  have "sint (hit_count (small_cache (1, 3, 1) 4 [(1, 2, 4), (1, 1, 3)])) +
     sint (miss_count (small_cache (1, 3, 1) 4 [(1, 2, 4), (1, 1, 3)])) =
     int (sub_references [Access CHR ''L'' 0, Access CHR ''M'' 1, Skipped, Access CHR ''S'' 2]) \<and>
   sint (instr_count (small_cache (1, 3, 1) 4 [(1, 2, 4), (1, 1, 3)])) =
     int (sub_references [Access CHR ''L'' 0, Access CHR ''M'' 1, Skipped, Access CHR ''S'' 2])"
    by blast
  with mk rf n show ?thesis by blast
qed

lemma full_small_cache:
  "full (small_cache (0, 2, 0) 2 [(1, 0, 1), (1, 1, 2)])"
  by (auto simp add: full_def read_line_def small_cache_def less_Suc_eq numeral_2_eq_2)

text \<open>
  Claim C6.  In every state \<open>c\<close> that a run of \<^verbatim>\<open>read_file\<close> from a new cache reaches,
  \<open>evict_count \<le> miss_count\<close>.  If every line of every set of \<open>c\<close> is valid, then a call of
  \<^verbatim>\<open>lookup\<close> that misses increments \<open>evict_count\<close> as well, and after any further trace every
  line is still valid and \<open>miss_count\<close> and \<open>evict_count\<close> have grown by the same number.
\<close>

theorem evictions_at_most_misses:
  assumes "make_cache s_bits assoc b_bits v_set = Inr c0" and "read_file c0 trace = Inr c"
  shows "sint (evict_count c) \<le> sint (miss_count c) \<and>
         (\<forall>a c'. full c \<and> lookup a c = Inr c' \<and> miss_count c' \<noteq> miss_count c \<longrightarrow>
            sint (evict_count c') = sint (evict_count c) + 1) \<and>
         (\<forall>trace' c'. full c \<and> read_file c trace' = Inr c' \<longrightarrow>
            full c' \<and>
            sint (miss_count c') - sint (miss_count c) =
              sint (evict_count c') - sint (evict_count c))"
proof (intro conjI allI impI)
  show "sint (evict_count c) \<le> sint (miss_count c)"
  proof (rule read_file_invariant [OF assms(2)])
    show "sint (evict_count c0) \<le> sint (miss_count c0)"
      using make_cache_new(2,3) [OF assms(1)] by simp
  next
    fix a c1 c2
    assume "sint (evict_count c1) \<le> sint (miss_count c1)" and "lookup a c1 = Inr c2"
    with lookup_counters [of a c1 c2] show "sint (evict_count c2) \<le> sint (miss_count c2)"
      by auto
  qed
next
  fix a c'
  assume "full c \<and> lookup a c = Inr c' \<and> miss_count c' \<noteq> miss_count c"
  with lookup_counters [of a c c'] show "sint (evict_count c') = sint (evict_count c) + 1"
    by auto
next
  fix trace' c'
  assume a: "full c \<and> read_file c trace' = Inr c'"
  let ?P = "\<lambda>d. full d \<and>
    sint (miss_count d) - sint (miss_count c) = sint (evict_count d) - sint (evict_count c)"
  have "?P c'"
  proof (rule read_file_invariant [of c trace' c' ?P])
    show "read_file c trace' = Inr c'" using a by simp
    show "?P c" using a by simp
  next
    fix a c1 c2
    assume "?P c1" and l: "lookup a c1 = Inr c2"
    with lookup_counters [OF l] lookup_full [OF l] show "?P c2"
      by auto
  qed
  then show "full c'"
    and "sint (miss_count c') - sint (miss_count c) = sint (evict_count c') - sint (evict_count c)"
    by simp_all
qed

theorem evictions_at_most_misses_witness:
  "make_cache 0 2 0 0 = Inr (small_cache (0, 0, 0) 0 [(0, 0, 0), (0, 0, 0)]) \<and>
   read_file (small_cache (0, 0, 0) 0 [(0, 0, 0), (0, 0, 0)]) [Access CHR ''L'' 0, Access CHR ''L'' 1]
     = Inr (small_cache (0, 2, 0) 2 [(1, 0, 1), (1, 1, 2)]) \<and>
   lookup 2 (small_cache (0, 2, 0) 2 [(1, 0, 1), (1, 1, 2)])
     = Inr (small_cache (0, 3, 1) 3 [(1, 2, 3), (1, 1, 2)]) \<and>
   read_file (small_cache (0, 2, 0) 2 [(1, 0, 1), (1, 1, 2)]) [Access CHR ''L'' 2, Access CHR ''L'' 0]
     = Inr (small_cache (0, 4, 2) 4 [(1, 2, 3), (1, 0, 4)]) \<and>
   sint (evict_count (small_cache (0, 2, 0) 2 [(1, 0, 1), (1, 1, 2)]))
     \<le> sint (miss_count (small_cache (0, 2, 0) 2 [(1, 0, 1), (1, 1, 2)])) \<and>
   sint (evict_count (small_cache (0, 3, 1) 3 [(1, 2, 3), (1, 1, 2)])) =
     sint (evict_count (small_cache (0, 2, 0) 2 [(1, 0, 1), (1, 1, 2)])) + 1 \<and>
   sint (miss_count (small_cache (0, 4, 2) 4 [(1, 2, 3), (1, 0, 4)])) -
     sint (miss_count (small_cache (0, 2, 0) 2 [(1, 0, 1), (1, 1, 2)])) =
   sint (evict_count (small_cache (0, 4, 2) 4 [(1, 2, 3), (1, 0, 4)])) -
     sint (evict_count (small_cache (0, 2, 0) 2 [(1, 0, 1), (1, 1, 2)]))"
proof -
  let ?new = "small_cache (0, 0, 0) 0 [(0, 0, 0), (0, 0, 0)]"
  let ?second = "small_cache (0, 2, 0) 2 [(1, 0, 1), (1, 1, 2)]"
  let ?third = "small_cache (0, 3, 1) 3 [(1, 2, 3), (1, 1, 2)]"
  let ?fourth = "small_cache (0, 4, 2) 4 [(1, 2, 3), (1, 0, 4)]"
  have mk: "make_cache 0 2 0 0 = Inr ?new"
    by code_simp
  have rf: "read_file ?new [Access CHR ''L'' 0, Access CHR ''L'' 1] = Inr ?second"
    by code_simp
  have l3: "lookup 2 ?second = Inr ?third"
    by code_simp
  have rf2: "read_file ?second [Access CHR ''L'' 2, Access CHR ''L'' 0] = Inr ?fourth"
    by code_simp
  have ne: "miss_count ?third \<noteq> miss_count ?second"
    by (simp add: small_cache_def)
  note inst = evictions_at_most_misses [OF mk rf]
  from inst have 1: "sint (evict_count ?second) \<le> sint (miss_count ?second)"
    by blast
  from inst full_small_cache l3 ne have 2: "sint (evict_count ?third) = sint (evict_count ?second) + 1"
    by blast
  from inst full_small_cache rf2
  have 3: "sint (miss_count ?fourth) - sint (miss_count ?second) = sint (evict_count ?fourth) - sint (evict_count ?second)"
    by blast
  from mk rf l3 rf2 1 2 3 show ?thesis
    by blast
qed

end
